theory Spec2Isabelle
  imports Complex_Main "HOL-Library.Word"
begin

section \<open>Element values and arrays\<close>

text \<open>
  The reductions of \<^verbatim>\<open>reduction.cc\<close> are templates over the element type \<open>T\<close>. The
  template only uses \<open>T{}\<close>, \<open>operator<\<close>, \<open>operator>\<close>, \<open>IsNan\<close> and
  \<open>NumericLimits<T>::LowestOrInf()\<close> of it, so an element is modelled as either the NaN of
  a floating-point type or a number \<open>Num x\<close> with \<open>x\<close> taken from a linear order (numbers
  that compare equal with \<open>==\<close>, such as the two zeros of a floating-point type, are one
  \<open>x\<close>). An array of an integer type simply holds no \<open>NaN\<close>.
\<close>

datatype 'a val = NaN | Num 'a

text \<open>C++ \<open>a < b\<close> and \<open>a > b\<close>: false as soon as one operand is NaN.\<close>

fun lt :: "'a::linorder val \<Rightarrow> 'a val \<Rightarrow> bool" where
  "lt (Num x) (Num y) = (x < y)"
| "lt _ _ = False"

definition gt :: "'a::linorder val \<Rightarrow> 'a val \<Rightarrow> bool" where
  "gt a b = lt b a"

text \<open>
  C++ \<open>a <= b\<close>, likewise. The reductions do not use it; the properties below do, to say
  that a value is the greatest or the least of a group.
\<close>

fun le :: "'a::linorder val \<Rightarrow> 'a val \<Rightarrow> bool" where
  "le (Num x) (Num y) = (x \<le> y)"
| "le _ _ = False"

text \<open>
  Modelled from the spec: \<open>chainerx::IsNan\<close> (\<^verbatim>\<open>chainerx/numeric.h\<close>, not part of
  the sources at hand), the "NaN predicate" of the numeric type traits.
\<close>

definition IsNan :: "'a val \<Rightarrow> bool" where
  "IsNan v = (v = NaN)"

text \<open>
  Modelled from the spec: \<open>NumericLimits<T>::LowestOrInf()\<close>
  (\<^verbatim>\<open>chainerx/numeric_limits.h\<close>, not part of the sources at hand), the "lowest
  representable value or negative infinity" of the element type: the least number.
\<close>

definition LowestOrInf :: "'a::order_bot val" where
  "LowestOrInf = Num bot"

text \<open>
  The numbers of a floating-point type: the finite ones and the two infinities, in their
  usual order; \<open>T{}\<close> is 0 and the least number is \<open>-inf\<close>. (An unsigned integer type
  such as \<open>uint8\<close> is \<open>8 word\<close>, whose order, 0 and least element are those of the C++
  type; the numbers of a signed integer type are compared as \<open>int\<close>.)
\<close>

datatype fnum = NegInf | Fin real | PosInf

instantiation fnum :: linorder
begin

fun less_eq_fnum :: "fnum \<Rightarrow> fnum \<Rightarrow> bool" where
  "less_eq_fnum NegInf _ = True"
| "less_eq_fnum _ PosInf = True"
| "less_eq_fnum (Fin x) (Fin y) = (x \<le> y)"
| "less_eq_fnum _ _ = False"

definition less_fnum :: "fnum \<Rightarrow> fnum \<Rightarrow> bool" where
  "less_fnum a b = (a \<le> b \<and> \<not> b \<le> a)"

instance
proof
  fix x y z :: fnum
  show "(x < y) = (x \<le> y \<and> \<not> y \<le> x)"
    by (simp add: less_fnum_def)
  show "x \<le> x"
    by (cases x) simp_all
  show "x \<le> y \<Longrightarrow> y \<le> z \<Longrightarrow> x \<le> z"
    by (cases x; cases y; cases z) simp_all
  show "x \<le> y \<Longrightarrow> y \<le> x \<Longrightarrow> x = y"
    by (cases x; cases y) simp_all
  show "x \<le> y \<or> y \<le> x"
    by (cases x; cases y) auto
qed

end

instantiation fnum :: order_bot
begin

definition bot_fnum :: fnum where
  "bot_fnum = NegInf"

instance
  by standard (simp add: bot_fnum_def)

end

instantiation fnum :: zero
begin

definition zero_fnum :: fnum where
  "zero_fnum = Fin 0"

instance ..

end

text \<open>
  Modelled from the spec: \<open>Array\<close> (\<^verbatim>\<open>chainerx/array.h\<close>, not part of the sources
  at hand), the tensor of the spec (3), as far as a reduction reads it: its shape (an
  ordered sequence of dimension sizes), its device and its elements in logical row-major
  order (the strides only say where an element lies in memory). The element at flat
  index \<open>i\<close> is \<open>elems a ! i\<close>. The element type tag is the type parameter: the
  \<open>VisitDtype\<close> of the adapters, which picks the instance of the template for the
  array's \<open>dtype\<close>, is the instantiation of the type variables.
\<close>

record 'e Array =
  shape :: "nat list"
  device :: nat
  elems :: "'e list"


section \<open>The reduction engine\<close>

text \<open>
  The engine \<open>Reduce<In, Out>(a, axis, out, impl)\<close> of \<^verbatim>\<open>chainerx/native/reduce.h\<close>
  is not part of the sources at hand; this section models it from the spec (4.2): the
  index space of the input is split into (kept-axes coordinate, reduced-axes coordinate);
  for every kept-axes coordinate, in output memory order, the elements of its group are
  visited in increasing order of their flat index into the original (pre-reduction) index
  space; the accumulator starts as \<open>Identity()\<close>, each element is folded, together with
  its linear position, by \<open>Combine(MapIn(element, position), accum)\<close>, and \<open>MapOut(accum)\<close>
  is written to the output element.
\<close>

text \<open>
  Modelled from the spec: the coordinate of a flat index (4.2, glossary), row-major
  (last axis fastest), in an index space of shape \<open>ds\<close>.
\<close>

fun unravel :: "nat list \<Rightarrow> nat \<Rightarrow> nat list" where
  "unravel [] i = []"
| "unravel (d # ds) i = (i div prod_list ds) # unravel ds (i mod prod_list ds)"

text \<open>
  Modelled from the spec: the kept-axes part of a coordinate (4.2), its entries at the
  axes that are not reduced, in their order; likewise for a shape.
\<close>

definition kept :: "nat list \<Rightarrow> 'b list \<Rightarrow> 'b list" where
  "kept axes c = map fst (filter (\<lambda>p. snd p \<notin> set axes) (zip c [0..<length c]))"

text \<open>
  Modelled from the spec: the kept-axes coordinates (4.2), one per output element, in
  output memory order.
\<close>

definition out_coords :: "nat list \<Rightarrow> nat list \<Rightarrow> nat list list" where
  "out_coords sh axes = product_lists (map (\<lambda>d. [0..<d]) (kept axes sh))"

text \<open>
  Modelled from the spec: the group of a kept-axes coordinate \<open>kc\<close> (4.2), as the flat
  indices of its elements in increasing order.
\<close>

definition group :: "nat list \<Rightarrow> nat list \<Rightarrow> nat list \<Rightarrow> nat list" where
  "group sh axes kc = filter (\<lambda>i. kept axes (unravel sh i) = kc) [0..<prod_list sh]"

text \<open>
  Modelled from the spec: the groups of all output elements (4.2), in output memory
  order.
\<close>

definition groups :: "nat list \<Rightarrow> nat list \<Rightarrow> nat list list" where
  "groups sh axes = map (group sh axes) (out_coords sh axes)"

text \<open>
  Modelled from the spec: what the visit of one group hands to \<open>MapIn\<close> (3, 4.2): each
  element of the group, in the order of the visit, with "its linear position, needed for
  argmax/argmin" (3; the parameter the spec names \<open>flatIndex\<close>). The position is counted
  within the group, 0 for the element visited first: this is the index that the
  scenarios of the spec (8) expect, where ArgMax of a 2x3 input over axis 1 is [1, 2], and
  it is the flat index into the whole input when all axes are reduced. (It is an
  \<open>int64\<close>; a position is far below \<open>2^63\<close>, so it is an \<open>int\<close> here.)
\<close>

definition visit :: "'e list \<Rightarrow> nat list \<Rightarrow> ('e \<times> int) list" where
  "visit es g = zip (map ((!) es) g) (map int [0..<length g])"

text \<open>
  Modelled from the spec: steps 1 and 2 of the fold of one group (4.2),
  \<open>accum = Identity()\<close> and then \<open>Combine(MapIn(element, position), accum)\<close> for each
  element; the policy's \<open>Reduce(next, accum&)\<close> returns the new \<open>accum\<close>.
\<close>

definition fold_group ::
  "'acc \<Rightarrow> ('e \<Rightarrow> int \<Rightarrow> 'acc) \<Rightarrow> ('acc \<Rightarrow> 'acc \<Rightarrow> 'acc) \<Rightarrow> ('e \<times> int) list \<Rightarrow> 'acc" where
  "fold_group Identity MapIn Combine vs =
     fold (\<lambda>(v, i) accum. Combine (MapIn v i) accum) vs Identity"

text \<open>
  Modelled from the spec: \<open>Reduce<In, Out>(a, axis, out, impl)\<close> (4.2), which writes
  \<open>MapOut(accum)\<close> of every group to the output array, one element per group.
\<close>

definition Reduce ::
  "'acc \<Rightarrow> ('e \<Rightarrow> int \<Rightarrow> 'acc) \<Rightarrow> ('acc \<Rightarrow> 'acc \<Rightarrow> 'acc) \<Rightarrow> ('acc \<Rightarrow> 'o) \<Rightarrow>
     ('e, 'x) Array_scheme \<Rightarrow> nat list \<Rightarrow> ('o, 'y) Array_scheme \<Rightarrow> ('o, 'y) Array_scheme" where
  "Reduce Identity MapIn Combine MapOut a axis out =
     out\<lparr>elems := map (\<lambda>g. MapOut (fold_group Identity MapIn Combine (visit (elems a) g)))
                       (groups (shape a) axis)\<rparr>"

text \<open>
  The sequence of element values of each group, in the order of the visit and without the
  flat indices (not part of the engine; it says which runs hand the same values to a
  policy).
\<close>

definition group_values :: "('e, 'x) Array_scheme \<Rightarrow> nat list \<Rightarrow> 'e list list" where
  "group_values a axis = map (map ((!) (elems a))) (groups (shape a) axis)"

section \<open>Preconditions of the adapters\<close>

text \<open>
  Modelled from the spec: the drop-mode output shape of 4.1, the input shape with every
  axis in \<open>axes\<close> removed.
\<close>

definition drop_shape :: "nat list \<Rightarrow> nat list \<Rightarrow> nat list" where
  "drop_shape sh axes = kept axes sh"

text \<open>
  Modelled from the spec: the keep-dims output shape of 4.1, the input shape with every
  axis in \<open>axes\<close> set to 1.
\<close>

definition keepdims_shape :: "nat list \<Rightarrow> nat list \<Rightarrow> nat list" where
  "keepdims_shape sh axes = map (\<lambda>(d, k). if k \<in> set axes then 1 else d) (zip sh [0..<length sh])"

text \<open>
  Modelled from the spec: \<open>internal::IsValidReductionShape\<close> (not part of the sources at
  hand). The spec (4.1): true iff the output shape equals the input shape with every axis
  in \<open>axes\<close> either removed (drop mode) or, when keep-dims is allowed, set to 1 (keep-dims
  mode), preserving the relative order of the remaining axes.
\<close>

definition IsValidReductionShape :: "nat list \<Rightarrow> nat list \<Rightarrow> nat list \<Rightarrow> bool \<Rightarrow> bool" where
  "IsValidReductionShape in_shape axes out_shape allow_keepdims =
     (out_shape = drop_shape in_shape axes \<or>
      (allow_keepdims \<and> out_shape = keepdims_shape in_shape axes))"

text \<open>
  Modelled from the spec: \<open>Device::CheckDevicesCompatible\<close> (\<^verbatim>\<open>chainerx/device.h\<close>,
  not part of the sources at hand): input and output must be addressable by the same
  compute context.
\<close>

definition CheckDevicesCompatible :: "('e, 'x) Array_scheme \<Rightarrow> ('o, 'y) Array_scheme \<Rightarrow> bool" where
  "CheckDevicesCompatible a out = (device a = device out)"

text \<open>
  How a call ends when it does not return: one of the two assertions of the adapter
  fails (the one on the sizes of the reduced axes, the one on the shapes), or the device
  check throws.
\<close>

datatype failure = AxisSizeAssertion | ReductionShapeAssertion | DeviceError

text \<open>
  Modelled from the spec: the macro \<open>CHAINERX_ASSERT\<close> (\<^verbatim>\<open>chainerx/macro.h\<close>, not
  part of the sources at hand). The spec (6, 7): a contract violation is signalled by an
  assertion, a fatal check that is not recoverable. This is the macro of a build that
  checks its assertions (4.1 lets an optimized build skip the check): when the condition
  is false the call ends there, with the failure that names the assertion, and what
  follows the assertion does not run.
\<close>

definition CHAINERX_ASSERT :: "bool \<Rightarrow> failure \<Rightarrow> failure + 'r \<Rightarrow> failure + 'r" where
  "CHAINERX_ASSERT cond which rest = (if cond then rest else Inl which)"

section \<open>ArgMax\<close>

record 'a MaxAndArgMax =
  max_val :: "'a val"
  argmax :: int

definition ArgMax_Identity :: "'a::{linorder,zero} MaxAndArgMax" where
  "ArgMax_Identity = \<lparr>max_val = Num 0, argmax = - 1\<rparr>"

definition ArgMax_MapIn :: "'a val \<Rightarrow> int \<Rightarrow> 'a MaxAndArgMax" where
  "ArgMax_MapIn inp index = \<lparr>max_val = inp, argmax = index\<rparr>"

definition ArgMax_Reduce :: "'a::linorder MaxAndArgMax \<Rightarrow> 'a MaxAndArgMax \<Rightarrow> 'a MaxAndArgMax" where
  "ArgMax_Reduce next accum =
     (if argmax accum < 0 \<or> lt (max_val accum) (max_val next) then next else accum)"

definition ArgMax_MapOut :: "'a MaxAndArgMax \<Rightarrow> int" where
  "ArgMax_MapOut accum = argmax accum"

text \<open>One step of the engine's fold with this policy: \<open>Reduce(MapIn(v, i), accum)\<close>.\<close>

abbreviation ArgMax_step :: "'a::linorder val \<times> int \<Rightarrow> 'a MaxAndArgMax \<Rightarrow> 'a MaxAndArgMax" where
  "ArgMax_step \<equiv> (\<lambda>(v, i) accum. ArgMax_Reduce (ArgMax_MapIn v i) accum)"

definition NativeArgMaxOp_Call ::
  "('a::{linorder,zero}) val Array \<Rightarrow> nat list \<Rightarrow> int Array \<Rightarrow> failure + int Array" where
  "NativeArgMaxOp_Call a axis out =
     CHAINERX_ASSERT (list_all (\<lambda>i. shape a ! i > 0) axis) AxisSizeAssertion
    (CHAINERX_ASSERT (IsValidReductionShape (shape a) axis (shape out) False)
       ReductionShapeAssertion
    (if \<not> CheckDevicesCompatible a out then Inl DeviceError
     else Inr (Reduce ArgMax_Identity ArgMax_MapIn ArgMax_Reduce ArgMax_MapOut a axis out)))"

section \<open>ArgMin\<close>

record 'a MinAndArgMin =
  min_val :: "'a val"
  argmin :: int

definition ArgMin_Identity :: "'a::{linorder,zero} MinAndArgMin" where
  "ArgMin_Identity = \<lparr>min_val = Num 0, argmin = - 1\<rparr>"

definition ArgMin_MapIn :: "'a val \<Rightarrow> int \<Rightarrow> 'a MinAndArgMin" where
  "ArgMin_MapIn inp index = \<lparr>min_val = inp, argmin = index\<rparr>"

definition ArgMin_Reduce :: "'a::linorder MinAndArgMin \<Rightarrow> 'a MinAndArgMin \<Rightarrow> 'a MinAndArgMin" where
  "ArgMin_Reduce next accum =
     (if argmin accum < 0 \<or> gt (min_val accum) (min_val next) then next else accum)"

definition ArgMin_MapOut :: "'a MinAndArgMin \<Rightarrow> int" where
  "ArgMin_MapOut accum = argmin accum"

abbreviation ArgMin_step :: "'a::linorder val \<times> int \<Rightarrow> 'a MinAndArgMin \<Rightarrow> 'a MinAndArgMin" where
  "ArgMin_step \<equiv> (\<lambda>(v, i) accum. ArgMin_Reduce (ArgMin_MapIn v i) accum)"

definition NativeArgMinOp_Impl ::
  "('a::{linorder,zero}) val Array \<Rightarrow> nat list \<Rightarrow> int Array \<Rightarrow> failure + int Array" where
  "NativeArgMinOp_Impl a axis out =
     CHAINERX_ASSERT (list_all (\<lambda>i. shape a ! i > 0) axis) AxisSizeAssertion
    (CHAINERX_ASSERT (IsValidReductionShape (shape a) axis (shape out) False)
       ReductionShapeAssertion
    (if \<not> CheckDevicesCompatible a out then Inl DeviceError
     else Inr (Reduce ArgMin_Identity ArgMin_MapIn ArgMin_Reduce ArgMin_MapOut a axis out)))"

section \<open>Sum\<close>

text \<open>
  \<open>using Accum = std::conditional_t<std::is_same<Out, Float16>{}, float, Out>\<close>, as a
  function on element types: \<open>Float16\<close>, C++ \<open>float\<close>, and any other type.
\<close>

datatype 't ctype = Float16 | CFloat | Other 't

definition Accum :: "'t ctype \<Rightarrow> 't ctype" where
  "Accum Out = (if Out = Float16 then CFloat else Out)"

text \<open>
  The policy of \<open>do_sum\<close> at an instance whose types are resolved: input type \<open>'i\<close>,
  accumulator type \<open>'acc\<close> and output type \<open>'o\<close>. The two \<open>static_cast\<close>s are conversions
  of the C++ language between the instantiated types and are parameters (\<open>to_Accum\<close>,
  \<open>to_Out\<close>); \<open>+\<close> and \<open>0\<close> are those of the accumulator type, of which no law is assumed.
\<close>

definition Sum_Identity :: "'acc::zero" where
  "Sum_Identity = 0"

definition Sum_MapIn :: "('i \<Rightarrow> 'acc) \<Rightarrow> 'i \<Rightarrow> int \<Rightarrow> 'acc" where
  "Sum_MapIn to_Accum inp index = to_Accum inp"

definition Sum_Reduce :: "'acc::plus \<Rightarrow> 'acc \<Rightarrow> 'acc" where
  "Sum_Reduce next accum = accum + next"

definition Sum_MapOut :: "('acc \<Rightarrow> 'o) \<Rightarrow> 'acc \<Rightarrow> 'o" where
  "Sum_MapOut to_Out accum = to_Out accum"

definition NativeSumOp_Call ::
  "('i \<Rightarrow> 'acc::{zero,plus}) \<Rightarrow> ('acc \<Rightarrow> 'o) \<Rightarrow> 'i Array \<Rightarrow> nat list \<Rightarrow> 'o Array \<Rightarrow>
     failure + 'o Array" where
  "NativeSumOp_Call to_Accum to_Out a axis out =
     CHAINERX_ASSERT (IsValidReductionShape (shape a) axis (shape out) True)
       ReductionShapeAssertion
    (if \<not> CheckDevicesCompatible a out then Inl DeviceError
     else Inr (Reduce Sum_Identity (Sum_MapIn to_Accum) Sum_Reduce (Sum_MapOut to_Out) a axis out))"

text \<open>
  The same call with the types picked as the source picks them: \<open>VisitDtype\<close> resolves
  \<open>Out\<close> from \<open>out.dtype()\<close> and \<open>In\<close> from \<open>a.dtype()\<close>, and \<open>do_sum\<close> derives the
  accumulator type \<open>Accum\<close> from \<open>Out\<close>. A value of any element type lies in one carrier
  \<open>'v\<close>. The arithmetic of the element types (\<^verbatim>\<open>chainerx/dtype.h\<close>,
  \<^verbatim>\<open>chainerx/float16.h\<close> and the C++ language; not part of the sources at hand) is a
  parameter: \<open>zero_of T\<close> is \<open>T{0}\<close>, \<open>plus_of T a b\<close> is \<open>a + b\<close> computed in \<open>T\<close>, and
  \<open>cast_of From To x\<close> is \<open>static_cast<To>(x)\<close> for an \<open>x\<close> of type \<open>From\<close>.
\<close>

record ('t, 'v) numerics =
  zero_of :: "'t ctype \<Rightarrow> 'v"
  plus_of :: "'t ctype \<Rightarrow> 'v \<Rightarrow> 'v \<Rightarrow> 'v"
  cast_of :: "'t ctype \<Rightarrow> 't ctype \<Rightarrow> 'v \<Rightarrow> 'v"

definition do_sum_Identity :: "('t, 'v) numerics \<Rightarrow> 't ctype \<Rightarrow> 'v" where
  "do_sum_Identity N Out = zero_of N (Accum Out)"

definition do_sum_MapIn :: "('t, 'v) numerics \<Rightarrow> 't ctype \<Rightarrow> 't ctype \<Rightarrow> 'v \<Rightarrow> int \<Rightarrow> 'v" where
  "do_sum_MapIn N In Out inp index = cast_of N In (Accum Out) inp"

definition do_sum_Reduce :: "('t, 'v) numerics \<Rightarrow> 't ctype \<Rightarrow> 'v \<Rightarrow> 'v \<Rightarrow> 'v" where
  "do_sum_Reduce N Out next accum = plus_of N (Accum Out) accum next"

definition do_sum_MapOut :: "('t, 'v) numerics \<Rightarrow> 't ctype \<Rightarrow> 'v \<Rightarrow> 'v" where
  "do_sum_MapOut N Out accum = cast_of N (Accum Out) Out accum"

definition do_sum ::
  "('t, 'v) numerics \<Rightarrow> 't ctype \<Rightarrow> 't ctype \<Rightarrow> 'v Array \<Rightarrow> nat list \<Rightarrow> 'v Array \<Rightarrow> 'v Array" where
  "do_sum N In Out a axis out =
     Reduce (do_sum_Identity N Out) (do_sum_MapIn N In Out) (do_sum_Reduce N Out)
       (do_sum_MapOut N Out) a axis out"

text \<open>
  \<open>NativeSumOp::Call\<close> on an input of element type \<open>a_dtype\<close> and an output of element
  type \<open>out_dtype\<close>.
\<close>

definition NativeSumOp_Call_dtype ::
  "('t, 'v) numerics \<Rightarrow> 't ctype \<Rightarrow> 't ctype \<Rightarrow> 'v Array \<Rightarrow> nat list \<Rightarrow> 'v Array \<Rightarrow>
     failure + 'v Array" where
  "NativeSumOp_Call_dtype N a_dtype out_dtype a axis out =
     CHAINERX_ASSERT (IsValidReductionShape (shape a) axis (shape out) True)
       ReductionShapeAssertion
    (if \<not> CheckDevicesCompatible a out then Inl DeviceError
     else Inr (do_sum N a_dtype out_dtype a axis out))"

section \<open>AMax\<close>

definition AMax_Identity :: "'a::{linorder,order_bot} val" where
  "AMax_Identity = LowestOrInf"

definition AMax_MapIn :: "'a val \<Rightarrow> int \<Rightarrow> 'a val" where
  "AMax_MapIn inp index = inp"

definition AMax_Reduce :: "'a::linorder val \<Rightarrow> 'a val \<Rightarrow> 'a val" where
  "AMax_Reduce next accum = (if IsNan next \<or> lt accum next then next else accum)"

definition AMax_MapOut :: "'a val \<Rightarrow> 'a val" where
  "AMax_MapOut accum = accum"

abbreviation AMax_step :: "'a::linorder val \<times> int \<Rightarrow> 'a val \<Rightarrow> 'a val" where
  "AMax_step \<equiv> (\<lambda>(v, i) accum. AMax_Reduce (AMax_MapIn v i) accum)"

definition NativeAMaxOp_Call ::
  "('a::{linorder,order_bot}) val Array \<Rightarrow> nat list \<Rightarrow> 'a val Array \<Rightarrow> failure + 'a val Array" where
  "NativeAMaxOp_Call a axis out =
     CHAINERX_ASSERT (IsValidReductionShape (shape a) axis (shape out) True)
       ReductionShapeAssertion
    (if \<not> CheckDevicesCompatible a out then Inl DeviceError
     else Inr (Reduce AMax_Identity AMax_MapIn AMax_Reduce AMax_MapOut a axis out))"

section \<open>The engine: what every adapter's result is\<close>

lemma elems_Reduce:
  "elems (Reduce Identity MapIn Combine MapOut a axis out) =
     map (\<lambda>g. MapOut (fold_group Identity MapIn Combine (visit (elems a) g)))
       (groups (shape a) axis)"
  by (simp add: Reduce_def)

lemma group_ascending: "sorted_wrt (<) (group sh axes kc)"
  unfolding group_def by (rule sorted_wrt_filter) simp

lemma groups_ascending:
  assumes "k < length (groups sh axes)"
  shows "sorted_wrt (<) (groups sh axes ! k)"
  using assms by (simp add: groups_def group_ascending)

text \<open>The visit of a group: its values in order, each with its position.\<close>

lemma length_visit: "length (visit es g) = length g"
  by (simp add: visit_def)

lemma map_fst_visit: "map fst (visit es g) = map ((!) es) g"
  by (simp add: visit_def)

lemma nth_visit: "p < length g \<Longrightarrow> visit es g ! p = (es ! (g ! p), int p)"
  by (simp add: visit_def)

lemma fst_set_visit: "fst ` set (visit es g) = (!) es ` set g"
proof -
  have "fst ` set (visit es g) = set (map fst (visit es g))"
    by simp
  then show ?thesis
    by (simp only: map_fst_visit set_map)
qed

lemma visit_nonneg: "\<forall>p\<in>set (visit es g). 0 \<le> snd p"
proof
  fix p assume "p \<in> set (visit es g)"
  then have "(fst p, snd p) \<in> set (zip (map ((!) es) g) (map int [0..<length g]))"
    by (simp add: visit_def)
  then have "snd p \<in> set (map int [0..<length g])"
    by (rule set_zip_rightD)
  then show "0 \<le> snd p"
    by auto
qed

lemma visit_Nil: "visit es [] = []"
  by (simp add: visit_def)

text \<open>
  Splitting the visit at an element of the group: it is handed over with the number of
  elements visited before it.
\<close>

lemma upt_split3: "[0..<n + Suc m] = [0..<n] @ n # [Suc n..<Suc n + m]"
proof -
  have "[0..<n + Suc m] = [0..<n] @ [n..<n + Suc m]"
    by (rule upt_add_eq_append) simp
  also have "[n..<n + Suc m] = n # [Suc n..<Suc n + m]"
    by (simp add: upt_conv_Cons)
  finally show ?thesis .
qed

lemma visit_split:
  obtains P Q where "visit es (pre @ j # post) = P @ (es ! j, int (length pre)) # Q"
    and "map fst P = map ((!) es) pre" and "map fst Q = map ((!) es) post"
proof -
  let ?n = "length pre" and ?m = "length post"
  let ?P = "zip (map ((!) es) pre) (map int [0..<?n])"
  let ?Q = "zip (map ((!) es) post) (map int [Suc ?n..<Suc ?n + ?m])"
  have len: "length (pre @ j # post) = ?n + Suc ?m"
    by simp
  have "visit es (pre @ j # post) =
      zip (map ((!) es) pre @ es ! j # map ((!) es) post)
        (map int [0..<?n] @ int ?n # map int [Suc ?n..<Suc ?n + ?m])"
    unfolding visit_def len upt_split3 by simp
  also have "\<dots> = ?P @ (es ! j, int ?n) # ?Q"
    by (subst zip_append) simp_all
  finally have "visit es (pre @ j # post) = ?P @ (es ! j, int ?n) # ?Q" .
  moreover have "map fst ?P = map ((!) es) pre"
    by (rule map_fst_zip) simp
  moreover have "length [Suc ?n..<Suc ?n + ?m] = ?m"
    by (simp only: length_upt add_diff_cancel_left')
  then have "map fst ?Q = map ((!) es) post"
    by (intro map_fst_zip) (simp only: length_map)
  ultimately show thesis
    by (rule that)
qed

lemma ArgMax_Call_elems:
  assumes "NativeArgMaxOp_Call a axis out = Inr r"
  shows "elems r =
     map (\<lambda>g. ArgMax_MapOut (fold_group ArgMax_Identity ArgMax_MapIn ArgMax_Reduce (visit (elems a) g)))
       (groups (shape a) axis)"
  using assms
  by (auto simp: NativeArgMaxOp_Call_def CHAINERX_ASSERT_def elems_Reduce split: if_splits)

lemma ArgMin_Impl_elems:
  assumes "NativeArgMinOp_Impl a axis out = Inr r"
  shows "elems r =
     map (\<lambda>g. ArgMin_MapOut (fold_group ArgMin_Identity ArgMin_MapIn ArgMin_Reduce (visit (elems a) g)))
       (groups (shape a) axis)"
  using assms
  by (auto simp: NativeArgMinOp_Impl_def CHAINERX_ASSERT_def elems_Reduce split: if_splits)

lemma Sum_Call_elems:
  assumes "NativeSumOp_Call to_Accum to_Out a axis out = Inr r"
  shows "elems r =
     map (\<lambda>g. Sum_MapOut to_Out
            (fold_group Sum_Identity (Sum_MapIn to_Accum) Sum_Reduce (visit (elems a) g)))
       (groups (shape a) axis)"
  using assms
  by (auto simp: NativeSumOp_Call_def CHAINERX_ASSERT_def elems_Reduce split: if_splits)

lemma AMax_Call_elems:
  assumes "NativeAMaxOp_Call a axis out = Inr r"
  shows "elems r =
     map (\<lambda>g. AMax_MapOut (fold_group AMax_Identity AMax_MapIn AMax_Reduce (visit (elems a) g)))
       (groups (shape a) axis)"
  using assms
  by (auto simp: NativeAMaxOp_Call_def CHAINERX_ASSERT_def elems_Reduce split: if_splits)

text \<open>Unfolding a call on a concrete array.\<close>

lemmas engine_defs =
  IsValidReductionShape_def drop_shape_def keepdims_shape_def kept_def
  CheckDevicesCompatible_def Reduce_def groups_def group_def out_coords_def visit_def
  fold_group_def upt_conv_Cons

lemmas ArgMax_defs =
  NativeArgMaxOp_Call_def CHAINERX_ASSERT_def ArgMax_Identity_def ArgMax_MapIn_def
  ArgMax_Reduce_def ArgMax_MapOut_def

lemmas ArgMin_defs =
  NativeArgMinOp_Impl_def CHAINERX_ASSERT_def ArgMin_Identity_def ArgMin_MapIn_def
  ArgMin_Reduce_def ArgMin_MapOut_def gt_def

lemmas Sum_defs =
  NativeSumOp_Call_def CHAINERX_ASSERT_def Sum_Identity_def Sum_MapIn_def Sum_Reduce_def
  Sum_MapOut_def

lemmas AMax_defs =
  NativeAMaxOp_Call_def CHAINERX_ASSERT_def AMax_Identity_def AMax_MapIn_def AMax_Reduce_def
  AMax_MapOut_def LowestOrInf_def IsNan_def

section \<open>The axis-size assertion of ArgMax and ArgMin\<close>

text \<open>
  C4. A call of the ArgMax or of the ArgMin adapter fails its first assertion, and so
  returns no computed result, exactly when some axis of the reduction has size 0 in the
  input shape; when every reduced axis has size > 0 that assertion passes.
\<close>

theorem ArgMax_ArgMin_axis_size_assertion:
  "(NativeArgMaxOp_Call a axis out = Inl AxisSizeAssertion \<longleftrightarrow> (\<exists>i\<in>set axis. shape a ! i = 0)) \<and>
   (NativeArgMinOp_Impl a axis out = Inl AxisSizeAssertion \<longleftrightarrow> (\<exists>i\<in>set axis. shape a ! i = 0))"
  by (auto simp: NativeArgMaxOp_Call_def CHAINERX_ASSERT_def NativeArgMinOp_Impl_def list_all_iff)

text \<open>Shape (0,3) reduced over axis 0: the assertion fails, for both adapters.\<close>

theorem ArgMax_ArgMin_axis_size_assertion_witness:
  "NativeArgMaxOp_Call \<lparr>shape = [0, 3], device = 0, elems = ([] :: int val list)\<rparr> [0]
       \<lparr>shape = [3], device = 0, elems = [7, 7, 7]\<rparr> = Inl AxisSizeAssertion \<and>
   NativeArgMinOp_Impl \<lparr>shape = [0, 3], device = 0, elems = ([] :: int val list)\<rparr> [0]
       \<lparr>shape = [3], device = 0, elems = [7, 7, 7]\<rparr> = Inl AxisSizeAssertion \<and>
   NativeArgMaxOp_Call \<lparr>shape = [1, 3], device = 0, elems = [Num 4, Num 9, Num (2 :: int)]\<rparr> [0]
       \<lparr>shape = [3], device = 0, elems = [7, 7, 7]\<rparr> \<noteq> Inl AxisSizeAssertion"
  using ArgMax_ArgMin_axis_size_assertion
    [of "\<lparr>shape = [0, 3], device = 0, elems = ([] :: int val list)\<rparr>" "[0]"
        "\<lparr>shape = [3], device = 0, elems = [7, 7, 7]\<rparr>"]
    ArgMax_ArgMin_axis_size_assertion
    [of "\<lparr>shape = [1, 3], device = 0, elems = [Num 4, Num 9, Num (2 :: int)]\<rparr>" "[0]"
        "\<lparr>shape = [3], device = 0, elems = [7, 7, 7]\<rparr>"]
  by simp

section \<open>ArgMax: the first maximum wins\<close>

lemma le_neq_lt: "le v m \<Longrightarrow> v \<noteq> m \<Longrightarrow> lt v m"
  by (cases v; cases m) auto

lemma le_not_lt: "le v m \<Longrightarrow> \<not> lt m v"
  by (cases v; cases m) auto

text \<open>The first position with a property in an ascending list of positions is the smallest.\<close>

lemma first_position:
  assumes "sorted_wrt (<) (g :: nat list)" and "j \<in> set g" and "P j"
  obtains pre j0 post where "g = pre @ j0 # post" and "P j0" and "\<forall>i\<in>set pre. \<not> P i"
    and "\<forall>i\<in>set g. P i \<longrightarrow> j0 \<le> i"
proof -
  from assms(2,3) obtain pre j0 post where
    g: "g = pre @ j0 # post" and j0: "P j0" and pre: "\<forall>i\<in>set pre. \<not> P i"
    using split_list_first_prop [of g P] by blast
  have "\<forall>i\<in>set post. j0 < i"
    using assms(1) by (simp add: g sorted_wrt_append)
  then have "\<forall>i\<in>set g. P i \<longrightarrow> j0 \<le> i"
    using pre by (auto simp: g)
  with g j0 pre show thesis by (rule that)
qed

text \<open>An accumulator that holds an element is kept while nothing greater comes.\<close>

lemma ArgMax_fold_keeps:
  assumes "0 \<le> argmax acc" and "\<forall>p\<in>set vs. \<not> lt (max_val acc) (fst p)"
  shows "fold ArgMax_step vs acc = acc"
  using assms
  by (induction vs) (auto simp: ArgMax_Reduce_def ArgMax_MapIn_def)

text \<open>Folding elements below \<open>m\<close> leaves an accumulator that \<open>m\<close> replaces.\<close>

lemma ArgMax_fold_below:
  assumes "argmax acc < 0 \<or> lt (max_val acc) m" and "\<forall>p\<in>set vs. lt (fst p) m"
  shows "argmax (fold ArgMax_step vs acc) < 0 \<or> lt (max_val (fold ArgMax_step vs acc)) m"
  using assms
proof (induction vs arbitrary: acc)
  case Nil
  then show ?case by simp
next
  case (Cons p vs)
  obtain v i where p: "p = (v, i)" by (cases p)
  have "argmax (ArgMax_step p acc) < 0 \<or> lt (max_val (ArgMax_step p acc)) m"
    using Cons.prems by (auto simp: p ArgMax_Reduce_def ArgMax_MapIn_def)
  then show ?case
    using Cons.IH [of "ArgMax_step p acc"] Cons.prems(2) by simp
qed

lemma ArgMax_first_wins:
  assumes "0 \<le> j" and "\<forall>p\<in>set pre. lt (fst p) m" and "\<forall>p\<in>set post. \<not> lt m (fst p)"
  shows "ArgMax_MapOut
           (fold_group ArgMax_Identity ArgMax_MapIn ArgMax_Reduce (pre @ (m, j) # post)) = j"
proof -
  let ?acc = "fold ArgMax_step pre ArgMax_Identity"
  have "argmax ?acc < 0 \<or> lt (max_val ?acc) m"
    by (rule ArgMax_fold_below) (simp_all add: ArgMax_Identity_def assms(2))
  then have hit: "ArgMax_step (m, j) ?acc = \<lparr>max_val = m, argmax = j\<rparr>"
    by (auto simp: ArgMax_Reduce_def ArgMax_MapIn_def)
  have "fold ArgMax_step post \<lparr>max_val = m, argmax = j\<rparr> = \<lparr>max_val = m, argmax = j\<rparr>"
    by (rule ArgMax_fold_keeps) (simp_all add: assms)
  with hit show ?thesis
    by (simp add: fold_group_def ArgMax_MapOut_def)
qed


lemma values_of_part:
  assumes "map fst P = map ((!) es) part"
  shows "fst ` set P = (!) es ` set part"
proof -
  have "fst ` set P = set (map fst P)"
    by simp
  then show ?thesis
    by (simp only: assms set_map)
qed

text \<open>
  C1. Let a call of the ArgMax adapter return (so every reduced axis has size > 0), and
  let the number \<open>m\<close> be the maximum of the group of output element \<open>k\<close>: some element of
  the group is \<open>m\<close> and every element of the group is \<open><= m\<close>. Then output element \<open>k\<close> is
  the position in the group of an element that is \<open>m\<close>, and the first such position, which
  is the one with the smallest flat index: the position of the maximum when it is unique,
  the first of its positions otherwise.
\<close>

theorem ArgMax_returns_first_maximum:
  assumes call: "NativeArgMaxOp_Call a axis out = Inr r"
    and k: "k < length (groups (shape a) axis)"
    and j: "j \<in> set (groups (shape a) axis ! k)" "elems a ! j = Num m"
    and greatest: "\<forall>i\<in>set (groups (shape a) axis ! k). le (elems a ! i) (Num m)"
  shows "(\<exists>p<length (groups (shape a) axis ! k).
           elems r ! k = int p \<and> elems a ! (groups (shape a) axis ! k ! p) = Num m \<and>
           (\<forall>q<length (groups (shape a) axis ! k).
              elems a ! (groups (shape a) axis ! k ! q) = Num m \<longrightarrow> p \<le> q) \<and>
           (\<forall>i\<in>set (groups (shape a) axis ! k).
              elems a ! i = Num m \<longrightarrow> groups (shape a) axis ! k ! p \<le> i)) \<and>
         ((\<forall>i\<in>set (groups (shape a) axis ! k). elems a ! i = Num m \<longrightarrow> i = j) \<longrightarrow>
           (\<exists>p<length (groups (shape a) axis ! k).
              groups (shape a) axis ! k ! p = j \<and> elems r ! k = int p))"
proof -
  let ?g = "groups (shape a) axis ! k"
  let ?es = "elems a"
  have "sorted_wrt (<) ?g"
    using k by (rule groups_ascending)
  then obtain pre j0 post where
    g: "?g = pre @ j0 # post" and j0: "?es ! j0 = Num m"
    and pre: "\<forall>i\<in>set pre. \<not> ?es ! i = Num m"
    and least: "\<forall>i\<in>set ?g. ?es ! i = Num m \<longrightarrow> j0 \<le> i"
    using j by (rule first_position [where P = "\<lambda>i. ?es ! i = Num m"])
  let ?p = "length pre"
  obtain P Q where split: "visit ?es (pre @ j0 # post) = P @ (?es ! j0, int ?p) # Q"
    and P: "map fst P = map ((!) ?es) pre" and Q: "map fst Q = map ((!) ?es) post"
    by (rule visit_split)
  have below: "\<forall>x\<in>set P. lt (fst x) (Num m)"
  proof
    fix x assume "x \<in> set P"
    then have "fst x \<in> (!) ?es ` set pre"
      using values_of_part [OF P] by blast
    then obtain i where "i \<in> set pre" and "fst x = ?es ! i"
      by blast
    then show "lt (fst x) (Num m)"
      using pre greatest by (auto simp: g intro: le_neq_lt)
  qed
  have above: "\<forall>x\<in>set Q. \<not> lt (Num m) (fst x)"
  proof
    fix x assume "x \<in> set Q"
    then have "fst x \<in> (!) ?es ` set post"
      using values_of_part [OF Q] by blast
    then obtain i where "i \<in> set post" and "fst x = ?es ! i"
      by blast
    then show "\<not> lt (Num m) (fst x)"
      using greatest by (auto simp: g dest: le_not_lt)
  qed
  have "elems r ! k =
      ArgMax_MapOut (fold_group ArgMax_Identity ArgMax_MapIn ArgMax_Reduce (visit ?es ?g))"
    using k by (simp add: ArgMax_Call_elems [OF call])
  also have "visit ?es ?g = P @ (Num m, int ?p) # Q"
    by (simp only: g split j0)
  also have "ArgMax_MapOut (fold_group ArgMax_Identity ArgMax_MapIn ArgMax_Reduce \<dots>) = int ?p"
    using below above by (intro ArgMax_first_wins) simp_all
  finally have res: "elems r ! k = int ?p" .
  have len: "?p < length ?g"
    by (simp add: g)
  have at: "?g ! ?p = j0"
    by (simp add: g)
  have first: "\<forall>q<length ?g. ?es ! (?g ! q) = Num m \<longrightarrow> ?p \<le> q"
  proof (intro allI impI)
    fix q assume "q < length ?g" and hit: "?es ! (?g ! q) = Num m"
    show "?p \<le> q"
    proof (rule ccontr)
      assume "\<not> ?p \<le> q"
      then have "q < ?p" by simp
      then have "?g ! q \<in> set pre"
        by (simp add: g nth_append)
      with pre hit show False by blast
    qed
  qed
  have smallest: "\<forall>i\<in>set ?g. ?es ! i = Num m \<longrightarrow> ?g ! ?p \<le> i"
    using least by (simp only: at)
  have one: "\<exists>p<length ?g. elems r ! k = int p \<and> ?es ! (?g ! p) = Num m \<and>
      (\<forall>q<length ?g. ?es ! (?g ! q) = Num m \<longrightarrow> p \<le> q) \<and>
      (\<forall>i\<in>set ?g. ?es ! i = Num m \<longrightarrow> ?g ! p \<le> i)"
  proof (intro exI [of _ ?p] conjI)
    show "?es ! (?g ! ?p) = Num m"
      by (simp only: at j0)
  qed (fact len res first smallest)+
  have unique: "(\<forall>i\<in>set ?g. ?es ! i = Num m \<longrightarrow> i = j) \<longrightarrow>
      (\<exists>p<length ?g. ?g ! p = j \<and> elems r ! k = int p)"
  proof
    assume "\<forall>i\<in>set ?g. ?es ! i = Num m \<longrightarrow> i = j"
    moreover have "j0 \<in> set ?g"
      by (simp add: g)
    ultimately have "j0 = j"
      using j0 by blast
    with at have "?g ! ?p = j" by simp
    with len res show "\<exists>p<length ?g. ?g ! p = j \<and> elems r ! k = int p"
      by blast
  qed
  from one unique show ?thesis by (rule conjI)
qed

text \<open>
  ArgMax over the whole of [5,5,3,5] returns 0, the first of the three positions of 5.
  ArgMax of [[1,3,2],[4,6,6]] over axis 1 returns 1 for the second row, the first of the
  two positions of 6 in that row, whose elements have the flat indices 3, 4, 5.
\<close>

theorem ArgMax_returns_first_maximum_witness:
  "NativeArgMaxOp_Call \<lparr>shape = [4], device = 0, elems = [Num 5, Num 5, Num 3, Num (5 :: int)]\<rparr> [0]
       \<lparr>shape = [], device = 0, elems = [7]\<rparr> =
     Inr \<lparr>shape = [], device = 0, elems = [0]\<rparr> \<and>
   groups [4] [0] = [[0, 1, 2, 3]] \<and>
   NativeArgMaxOp_Call
       \<lparr>shape = [2, 3], device = 0,
          elems = [Num 1, Num 3, Num 2, Num 4, Num 6, Num (6 :: int)]\<rparr> [1]
       \<lparr>shape = [2], device = 0, elems = [7, 7]\<rparr> =
     Inr \<lparr>shape = [2], device = 0, elems = [1, 1]\<rparr> \<and>
   groups [2, 3] [1] = [[0, 1, 2], [3, 4, 5]]"
proof -
  let ?a = "\<lparr>shape = [4], device = 0, elems = [Num 5, Num 5, Num 3, Num (5 :: int)]\<rparr>"
  let ?b = "\<lparr>shape = [2, 3], device = 0,
      elems = [Num 1, Num 3, Num 2, Num 4, Num 6, Num (6 :: int)]\<rparr>"
  let ?oa = "\<lparr>shape = [], device = 0, elems = [7 :: int]\<rparr>"
  let ?ob = "\<lparr>shape = [2], device = 0, elems = [7, 7 :: int]\<rparr>"
  have ga: "groups [4] [0] = [[0, 1, 2, 3]]"
    and gb: "groups [2, 3] [Suc 0] = [[0, 1, 2], [3, 4, 5]]"
    by (simp_all add: engine_defs)
  obtain ra where calla: "NativeArgMaxOp_Call ?a [0] ?oa = Inr ra"
    and ra: "ra = ?oa\<lparr>elems := elems ra\<rparr>" and la: "length (elems ra) = 1"
    by (simp add: NativeArgMaxOp_Call_def CHAINERX_ASSERT_def IsValidReductionShape_def
        drop_shape_def kept_def CheckDevicesCompatible_def Reduce_def ga)
  obtain rb where callb: "NativeArgMaxOp_Call ?b [1] ?ob = Inr rb"
    and rb: "rb = ?ob\<lparr>elems := elems rb\<rparr>" and lb: "length (elems rb) = 2"
    by (simp add: NativeArgMaxOp_Call_def CHAINERX_ASSERT_def IsValidReductionShape_def
        drop_shape_def kept_def CheckDevicesCompatible_def Reduce_def gb)
  have ka: "0 < length (groups (shape ?a) [0])"
    and ja: "3 \<in> set (groups (shape ?a) [0] ! 0)" and va: "elems ?a ! 3 = Num 5"
    and ma: "\<forall>i\<in>set (groups (shape ?a) [0] ! 0). le (elems ?a ! i) (Num 5)"
    by (simp_all add: ga)
  have kb: "1 < length (groups (shape ?b) [1])"
    and jb: "5 \<in> set (groups (shape ?b) [1] ! 1)" and vb: "elems ?b ! 5 = Num 6"
    and mb: "\<forall>i\<in>set (groups (shape ?b) [1] ! 1). le (elems ?b ! i) (Num 6)"
    by (simp_all add: gb)
  have "\<exists>p<length (groups (shape ?a) [0] ! 0). elems ra ! 0 = int p \<and>
      (\<forall>q<length (groups (shape ?a) [0] ! 0).
         elems ?a ! (groups (shape ?a) [0] ! 0 ! q) = Num 5 \<longrightarrow> p \<le> q)"
    using ArgMax_returns_first_maximum [OF calla ka ja va ma] by blast
  then have "elems ra ! 0 = 0"
    by (auto simp: ga)
  with la have ea: "elems ra = [0]"
    by (cases "elems ra") simp_all
  have "\<exists>p<length (groups (shape ?b) [1] ! 1). elems rb ! 1 = int p \<and>
      elems ?b ! (groups (shape ?b) [1] ! 1 ! p) = Num 6 \<and>
      (\<forall>q<length (groups (shape ?b) [1] ! 1).
         elems ?b ! (groups (shape ?b) [1] ! 1 ! q) = Num 6 \<longrightarrow> p \<le> q)"
    using ArgMax_returns_first_maximum [OF callb kb jb vb mb] by blast
  then obtain p where p: "elems rb ! 1 = int p"
    and hit: "elems ?b ! ([3, 4, 5] ! p) = Num 6"
    and first: "\<forall>q<length [3, 4, 5 :: nat]. elems ?b ! ([3, 4, 5] ! q) = Num 6 \<longrightarrow> p \<le> q"
    by (auto simp: gb)
  from first have "p \<le> 1"
    by (elim allE [of _ 1]) simp
  moreover from hit have "p \<noteq> 0"
    by (intro notI) simp
  ultimately have "p = 1"
    by simp
  with p have b1: "elems rb ! 1 = 1"
    by simp
  have b0: "elems rb ! 0 = 1"
    using callb by (auto simp: ArgMax_defs engine_defs)
  from lb b0 b1 have eb: "elems rb = [1, 1]"
    by (cases "elems rb"; cases "tl (elems rb)") auto
  from calla callb ra rb ea eb ga gb show ?thesis
    by simp
qed

section \<open>ArgMin: the first minimum wins\<close>

lemma le_neq_gt: "le m v \<Longrightarrow> v \<noteq> m \<Longrightarrow> gt v m"
  by (cases v; cases m) (auto simp: gt_def)

lemma le_not_gt: "le m v \<Longrightarrow> \<not> gt m v"
  by (cases v; cases m) (auto simp: gt_def)

lemma ArgMin_fold_keeps:
  assumes "0 \<le> argmin acc" and "\<forall>p\<in>set vs. \<not> gt (min_val acc) (fst p)"
  shows "fold ArgMin_step vs acc = acc"
  using assms
  by (induction vs) (auto simp: ArgMin_Reduce_def ArgMin_MapIn_def)

lemma ArgMin_fold_above:
  assumes "argmin acc < 0 \<or> gt (min_val acc) m" and "\<forall>p\<in>set vs. gt (fst p) m"
  shows "argmin (fold ArgMin_step vs acc) < 0 \<or> gt (min_val (fold ArgMin_step vs acc)) m"
  using assms
proof (induction vs arbitrary: acc)
  case Nil
  then show ?case by simp
next
  case (Cons p vs)
  obtain v i where p: "p = (v, i)" by (cases p)
  have "argmin (ArgMin_step p acc) < 0 \<or> gt (min_val (ArgMin_step p acc)) m"
    using Cons.prems by (auto simp: p ArgMin_Reduce_def ArgMin_MapIn_def)
  then show ?case
    using Cons.IH [of "ArgMin_step p acc"] Cons.prems(2) by simp
qed

lemma ArgMin_first_wins:
  assumes "0 \<le> j" and "\<forall>p\<in>set pre. gt (fst p) m" and "\<forall>p\<in>set post. \<not> gt m (fst p)"
  shows "ArgMin_MapOut
           (fold_group ArgMin_Identity ArgMin_MapIn ArgMin_Reduce (pre @ (m, j) # post)) = j"
proof -
  let ?acc = "fold ArgMin_step pre ArgMin_Identity"
  have "argmin ?acc < 0 \<or> gt (min_val ?acc) m"
    by (rule ArgMin_fold_above) (simp_all add: ArgMin_Identity_def assms(2))
  then have hit: "ArgMin_step (m, j) ?acc = \<lparr>min_val = m, argmin = j\<rparr>"
    by (auto simp: ArgMin_Reduce_def ArgMin_MapIn_def)
  have "fold ArgMin_step post \<lparr>min_val = m, argmin = j\<rparr> = \<lparr>min_val = m, argmin = j\<rparr>"
    by (rule ArgMin_fold_keeps) (simp_all add: assms)
  with hit show ?thesis
    by (simp add: fold_group_def ArgMin_MapOut_def)
qed

text \<open>
  C3. Let a call of the ArgMin adapter return, and let the group of output element \<open>k\<close>
  have the minimum \<open>m\<close> (so the group is not empty). The accumulator of the group starts
  at \<open>Identity()\<close>, which is \<open>(T{}, -1)\<close>; a step replaces it by the next element exactly
  when the stored index is negative or the stored minimum is strictly greater than the
  next value, and leaves it as it is otherwise; and the output element is the first
  position in the group at which the group holds \<open>m\<close>, the one with the smallest flat
  index: the first occurrence of the minimum wins.
\<close>

theorem ArgMin_first_minimum_wins:
  fixes a :: "('a::{linorder,zero}) val Array"
  assumes call: "NativeArgMinOp_Impl a axis out = Inr r"
    and k: "k < length (groups (shape a) axis)"
    and j: "j \<in> set (groups (shape a) axis ! k)" "elems a ! j = Num m"
    and least: "\<forall>i\<in>set (groups (shape a) axis ! k). le (Num m) (elems a ! i)"
  shows "(ArgMin_Identity :: 'a MinAndArgMin) = \<lparr>min_val = Num 0, argmin = - 1\<rparr> \<and>
         elems r ! k =
           argmin (fold ArgMin_step (visit (elems a) (groups (shape a) axis ! k))
                     ArgMin_Identity) \<and>
         (\<forall>next accum :: 'a MinAndArgMin.
            (argmin accum < 0 \<or> gt (min_val accum) (min_val next) \<longrightarrow>
               ArgMin_Reduce next accum = next) \<and>
            (\<not> (argmin accum < 0 \<or> gt (min_val accum) (min_val next)) \<longrightarrow>
               ArgMin_Reduce next accum = accum)) \<and>
         (\<exists>p<length (groups (shape a) axis ! k).
            elems r ! k = int p \<and> elems a ! (groups (shape a) axis ! k ! p) = Num m \<and>
            (\<forall>q<length (groups (shape a) axis ! k).
               elems a ! (groups (shape a) axis ! k ! q) = Num m \<longrightarrow> p \<le> q) \<and>
            (\<forall>i\<in>set (groups (shape a) axis ! k).
               elems a ! i = Num m \<longrightarrow> groups (shape a) axis ! k ! p \<le> i))"
proof -
  let ?g = "groups (shape a) axis ! k"
  let ?es = "elems a"
  have ident: "(ArgMin_Identity :: 'a MinAndArgMin) = \<lparr>min_val = Num 0, argmin = - 1\<rparr>"
    by (simp add: ArgMin_Identity_def)
  have res: "elems r ! k =
      ArgMin_MapOut (fold_group ArgMin_Identity ArgMin_MapIn ArgMin_Reduce (visit ?es ?g))"
    using k by (simp add: ArgMin_Impl_elems [OF call])
  then have start: "elems r ! k = argmin (fold ArgMin_step (visit ?es ?g) ArgMin_Identity)"
    by (simp add: ArgMin_MapOut_def fold_group_def)
  have step: "\<forall>next accum :: 'a MinAndArgMin.
            (argmin accum < 0 \<or> gt (min_val accum) (min_val next) \<longrightarrow>
               ArgMin_Reduce next accum = next) \<and>
            (\<not> (argmin accum < 0 \<or> gt (min_val accum) (min_val next)) \<longrightarrow>
               ArgMin_Reduce next accum = accum)"
    by (simp add: ArgMin_Reduce_def)
  have "sorted_wrt (<) ?g"
    using k by (rule groups_ascending)
  then obtain pre j0 post where
    g: "?g = pre @ j0 # post" and j0: "?es ! j0 = Num m"
    and pre: "\<forall>i\<in>set pre. \<not> ?es ! i = Num m"
    and smallest0: "\<forall>i\<in>set ?g. ?es ! i = Num m \<longrightarrow> j0 \<le> i"
    using j by (rule first_position [where P = "\<lambda>i. ?es ! i = Num m"])
  let ?p = "length pre"
  obtain P Q where split: "visit ?es (pre @ j0 # post) = P @ (?es ! j0, int ?p) # Q"
    and P: "map fst P = map ((!) ?es) pre" and Q: "map fst Q = map ((!) ?es) post"
    by (rule visit_split)
  have above: "\<forall>x\<in>set P. gt (fst x) (Num m)"
  proof
    fix x assume "x \<in> set P"
    then have "fst x \<in> (!) ?es ` set pre"
      using values_of_part [OF P] by blast
    then obtain i where "i \<in> set pre" and "fst x = ?es ! i"
      by blast
    then show "gt (fst x) (Num m)"
      using pre least by (auto simp: g intro: le_neq_gt)
  qed
  have below: "\<forall>x\<in>set Q. \<not> gt (Num m) (fst x)"
  proof
    fix x assume "x \<in> set Q"
    then have "fst x \<in> (!) ?es ` set post"
      using values_of_part [OF Q] by blast
    then obtain i where "i \<in> set post" and "fst x = ?es ! i"
      by blast
    then show "\<not> gt (Num m) (fst x)"
      using least by (auto simp: g dest: le_not_gt)
  qed
  note res
  also have "visit ?es ?g = P @ (Num m, int ?p) # Q"
    by (simp only: g split j0)
  also have "ArgMin_MapOut (fold_group ArgMin_Identity ArgMin_MapIn ArgMin_Reduce \<dots>) = int ?p"
    using above below by (intro ArgMin_first_wins) simp_all
  finally have at_p: "elems r ! k = int ?p" .
  have len: "?p < length ?g"
    by (simp add: g)
  have at: "?g ! ?p = j0"
    by (simp add: g)
  have first: "\<forall>q<length ?g. ?es ! (?g ! q) = Num m \<longrightarrow> ?p \<le> q"
  proof (intro allI impI)
    fix q assume "q < length ?g" and hit: "?es ! (?g ! q) = Num m"
    show "?p \<le> q"
    proof (rule ccontr)
      assume "\<not> ?p \<le> q"
      then have "q < ?p" by simp
      then have "?g ! q \<in> set pre"
        by (simp add: g nth_append)
      with pre hit show False by blast
    qed
  qed
  have smallest: "\<forall>i\<in>set ?g. ?es ! i = Num m \<longrightarrow> ?g ! ?p \<le> i"
    using smallest0 by (simp only: at)
  have wins: "\<exists>p<length ?g. elems r ! k = int p \<and> ?es ! (?g ! p) = Num m \<and>
      (\<forall>q<length ?g. ?es ! (?g ! q) = Num m \<longrightarrow> p \<le> q) \<and>
      (\<forall>i\<in>set ?g. ?es ! i = Num m \<longrightarrow> ?g ! p \<le> i)"
  proof (intro exI [of _ ?p] conjI)
    show "?es ! (?g ! ?p) = Num m"
      by (simp only: at j0)
  qed (fact len at_p first smallest)+
  from ident start step wins show ?thesis by (intro conjI)
qed

text \<open>
  ArgMin over the whole of [-1,-5,-2] returns 1. ArgMin of [[1,3,2],[4,0,6]] over axis 1
  returns 1 for the second row, the position of 0 in that row, whose elements have the
  flat indices 3, 4, 5.
\<close>

theorem ArgMin_first_minimum_wins_witness:
  "NativeArgMinOp_Impl \<lparr>shape = [3], device = 0, elems = [Num (- 1), Num (- 5), Num (- 2 :: int)]\<rparr> [0]
       \<lparr>shape = [], device = 0, elems = [7]\<rparr> =
     Inr \<lparr>shape = [], device = 0, elems = [1]\<rparr> \<and>
   groups [3] [0] = [[0, 1, 2]] \<and>
   NativeArgMinOp_Impl
       \<lparr>shape = [2, 3], device = 0,
          elems = [Num 1, Num 3, Num 2, Num 4, Num 0, Num (6 :: int)]\<rparr> [1]
       \<lparr>shape = [2], device = 0, elems = [7, 7]\<rparr> =
     Inr \<lparr>shape = [2], device = 0, elems = [0, 1]\<rparr> \<and>
   groups [2, 3] [1] = [[0, 1, 2], [3, 4, 5]]"
proof -
  let ?a = "\<lparr>shape = [3], device = 0, elems = [Num (- 1), Num (- 5), Num (- 2 :: int)]\<rparr>"
  let ?b = "\<lparr>shape = [2, 3], device = 0,
      elems = [Num 1, Num 3, Num 2, Num 4, Num 0, Num (6 :: int)]\<rparr>"
  let ?oa = "\<lparr>shape = [], device = 0, elems = [7 :: int]\<rparr>"
  let ?ob = "\<lparr>shape = [2], device = 0, elems = [7, 7 :: int]\<rparr>"
  have ga: "groups [3] [0] = [[0, 1, 2]]"
    and gb: "groups [2, 3] [Suc 0] = [[0, 1, 2], [3, 4, 5]]"
    by (simp_all add: engine_defs)
  obtain ra where calla: "NativeArgMinOp_Impl ?a [0] ?oa = Inr ra"
    and ra: "ra = ?oa\<lparr>elems := elems ra\<rparr>" and la: "length (elems ra) = 1"
    by (simp add: NativeArgMinOp_Impl_def CHAINERX_ASSERT_def IsValidReductionShape_def
        drop_shape_def kept_def CheckDevicesCompatible_def Reduce_def ga)
  obtain rb where callb: "NativeArgMinOp_Impl ?b [1] ?ob = Inr rb"
    and rb: "rb = ?ob\<lparr>elems := elems rb\<rparr>" and lb: "length (elems rb) = 2"
    by (simp add: NativeArgMinOp_Impl_def CHAINERX_ASSERT_def IsValidReductionShape_def
        drop_shape_def kept_def CheckDevicesCompatible_def Reduce_def gb)
  have ka: "0 < length (groups (shape ?a) [0])"
    and ja: "1 \<in> set (groups (shape ?a) [0] ! 0)" and va: "elems ?a ! 1 = Num (- 5)"
    and ma: "\<forall>i\<in>set (groups (shape ?a) [0] ! 0). le (Num (- 5)) (elems ?a ! i)"
    by (simp_all add: ga)
  have kb: "1 < length (groups (shape ?b) [1])"
    and jb: "4 \<in> set (groups (shape ?b) [1] ! 1)" and vb: "elems ?b ! 4 = Num 0"
    and mb: "\<forall>i\<in>set (groups (shape ?b) [1] ! 1). le (Num 0) (elems ?b ! i)"
    by (simp_all add: gb)
  have "\<exists>p<length (groups (shape ?a) [0] ! 0). elems ra ! 0 = int p \<and>
      elems ?a ! (groups (shape ?a) [0] ! 0 ! p) = Num (- 5)"
    using ArgMin_first_minimum_wins [OF calla ka ja va ma] by blast
  then obtain p where p: "elems ra ! 0 = int p" and lp: "p < 3"
    and hit: "elems ?a ! ([0, 1, 2] ! p) = Num (- 5)"
    by (auto simp: ga)
  from lp hit have "p = 1"
    by (cases p; cases "p - 1") auto
  with p la have ea: "elems ra = [1]"
    by (cases "elems ra") simp_all
  have "\<exists>p<length (groups (shape ?b) [1] ! 1). elems rb ! 1 = int p \<and>
      elems ?b ! (groups (shape ?b) [1] ! 1 ! p) = Num 0"
    using ArgMin_first_minimum_wins [OF callb kb jb vb mb] by blast
  then obtain q where q: "elems rb ! 1 = int q" and lq: "q < 3"
    and hitq: "elems ?b ! ([3, 4, 5] ! q) = Num 0"
    by (auto simp: gb)
  from lq hitq have "q = 1"
    by (cases q; cases "q - 1") auto
  with q have b1: "elems rb ! 1 = 1"
    by simp
  have b0: "elems rb ! 0 = 0"
    using callb by (auto simp: ArgMin_defs engine_defs)
  from lb b0 b1 have eb: "elems rb = [0, 1]"
    by (cases "elems rb"; cases "tl (elems rb)") auto
  from calla callb ra rb ea eb ga gb show ?thesis
    by simp
qed

section \<open>ArgMax and NaN\<close>

text \<open>Once the accumulator holds an element, the NaNs that follow change nothing.\<close>

lemma ArgMax_fold_skips_NaN:
  assumes "0 \<le> argmax acc" and "\<forall>p\<in>set vs. 0 \<le> snd p"
  shows "fold ArgMax_step vs acc = fold ArgMax_step (filter (\<lambda>p. fst p \<noteq> NaN) vs) acc"
  using assms
proof (induction vs arbitrary: acc)
  case Nil
  then show ?case by simp
next
  case (Cons p vs)
  obtain v i where p: "p = (v, i)" by (cases p)
  show ?case
  proof (cases "v = NaN")
    case True
    then have "ArgMax_step p acc = acc"
      using Cons.prems(1) by (simp add: p ArgMax_Reduce_def ArgMax_MapIn_def)
    then show ?thesis
      using Cons.IH [of acc] Cons.prems True by (simp add: p)
  next
    case False
    have "0 \<le> argmax (ArgMax_step p acc)"
      using Cons.prems by (simp add: p ArgMax_Reduce_def ArgMax_MapIn_def)
    then show ?thesis
      using Cons.IH [of "ArgMax_step p acc"] Cons.prems(2) False by (simp add: p)
  qed
qed

text \<open>
  C9. In ArgMax the combine step keeps an accumulator that already holds an element (its
  index is not negative) in two cases: when the accumulated maximum is not NaN and the
  next value is NaN, and, whatever the next value is, when the accumulated maximum is NaN.
  Consequently, for a call that returns: if the first element of a group is NaN, the
  output is its position, 0; otherwise the output is what the same fold yields when the
  NaN elements are left out of the visit.
\<close>

theorem ArgMax_NaN_never_replaces:
  fixes a :: "('a::{linorder,zero}) val Array"
  assumes call: "NativeArgMaxOp_Call a axis out = Inr r"
    and k: "k < length (groups (shape a) axis)"
    and g: "groups (shape a) axis ! k = i0 # rest"
  shows "(\<forall>next accum :: 'a MaxAndArgMax.
            0 \<le> argmax accum \<and> max_val accum \<noteq> NaN \<and> max_val next = NaN \<longrightarrow>
              ArgMax_Reduce next accum = accum) \<and>
         (\<forall>next accum :: 'a MaxAndArgMax.
            0 \<le> argmax accum \<and> max_val accum = NaN \<longrightarrow> ArgMax_Reduce next accum = accum) \<and>
         (elems a ! i0 = NaN \<longrightarrow> elems r ! k = 0) \<and>
         (elems a ! i0 \<noteq> NaN \<longrightarrow>
            elems r ! k =
              ArgMax_MapOut (fold_group ArgMax_Identity ArgMax_MapIn ArgMax_Reduce
                (filter (\<lambda>p. fst p \<noteq> NaN) (visit (elems a) (groups (shape a) axis ! k)))))"
proof -
  let ?es = "elems a"
  obtain P Q where "visit ?es ([] @ i0 # rest) = P @ (?es ! i0, int (length ([] :: nat list))) # Q"
    and "map fst P = map ((!) ?es) []"
    by (rule visit_split)
  then have split: "visit ?es (i0 # rest) = (?es ! i0, 0) # Q"
    by simp
  have Q: "\<forall>p\<in>set Q. 0 \<le> snd p"
    using visit_nonneg [of ?es "i0 # rest"] by (simp add: split)
  have res: "elems r ! k =
      ArgMax_MapOut (fold_group ArgMax_Identity ArgMax_MapIn ArgMax_Reduce ((?es ! i0, 0) # Q))"
    using k g by (simp add: ArgMax_Call_elems [OF call] split)
  have keep_num: "\<forall>next accum :: 'a MaxAndArgMax.
      0 \<le> argmax accum \<and> max_val accum \<noteq> NaN \<and> max_val next = NaN \<longrightarrow>
        ArgMax_Reduce next accum = accum"
    by (simp add: ArgMax_Reduce_def)
  have keep_nan: "\<forall>next accum :: 'a MaxAndArgMax.
      0 \<le> argmax accum \<and> max_val accum = NaN \<longrightarrow> ArgMax_Reduce next accum = accum"
    by (simp add: ArgMax_Reduce_def)
  have first_nan: "?es ! i0 = NaN \<longrightarrow> elems r ! k = 0"
  proof
    assume nan: "?es ! i0 = NaN"
    have "ArgMax_MapOut (fold_group ArgMax_Identity ArgMax_MapIn ArgMax_Reduce
        ([] @ (NaN, 0) # Q)) = 0"
      by (rule ArgMax_first_wins) simp_all
    then show "elems r ! k = 0"
      by (simp add: res nan)
  qed
  have skipped: "?es ! i0 \<noteq> NaN \<longrightarrow>
      elems r ! k =
        ArgMax_MapOut (fold_group ArgMax_Identity ArgMax_MapIn ArgMax_Reduce
          (filter (\<lambda>p. fst p \<noteq> NaN) (visit ?es (groups (shape a) axis ! k))))"
  proof
    assume num: "?es ! i0 \<noteq> NaN"
    let ?acc = "ArgMax_step (?es ! i0, 0) ArgMax_Identity"
    have "0 \<le> argmax ?acc"
      by (simp add: ArgMax_Reduce_def ArgMax_MapIn_def ArgMax_Identity_def)
    then have "fold ArgMax_step Q ?acc = fold ArgMax_step (filter (\<lambda>p. fst p \<noteq> NaN) Q) ?acc"
      using Q by (rule ArgMax_fold_skips_NaN)
    then have "fold_group ArgMax_Identity ArgMax_MapIn ArgMax_Reduce ((?es ! i0, 0) # Q) =
        fold_group ArgMax_Identity ArgMax_MapIn ArgMax_Reduce
          (filter (\<lambda>p. fst p \<noteq> NaN) ((?es ! i0, 0) # Q))"
      using num by (simp add: fold_group_def)
    then show "elems r ! k =
        ArgMax_MapOut (fold_group ArgMax_Identity ArgMax_MapIn ArgMax_Reduce
          (filter (\<lambda>p. fst p \<noteq> NaN) (visit ?es (groups (shape a) axis ! k))))"
      by (simp only: res g split)
  qed
  from keep_num keep_nan first_nan skipped show ?thesis by (intro conjI)
qed

text \<open>
  The float array [[2,NaN,7],[NaN,5,1]] reduced over axis 1. In the first row the NaN is
  skipped and the output is 2, the position of 7; the second row starts with NaN and the
  output is 0, the position of that NaN in its row (its flat index is 3).
\<close>

theorem ArgMax_NaN_never_replaces_witness:
  "NativeArgMaxOp_Call
       \<lparr>shape = [2, 3], device = 0,
          elems = [Num (Fin 2), NaN, Num (Fin 7), NaN, Num (Fin 5), Num (Fin 1)]\<rparr> [1]
       \<lparr>shape = [2], device = 0, elems = [9, 9]\<rparr> =
     Inr \<lparr>shape = [2], device = 0, elems = [2, 0]\<rparr> \<and>
   groups [2, 3] [1] = [[0, 1, 2], [3, 4, 5]] \<and>
   filter (\<lambda>p. fst p \<noteq> NaN)
     (visit [Num (Fin 2), NaN, Num (Fin 7), NaN, Num (Fin 5), Num (Fin 1)] [0, 1, 2]) =
     [(Num (Fin 2), 0), (Num (Fin 7), 2)]"
proof -
  let ?es = "[Num (Fin 2), NaN, Num (Fin 7), NaN, Num (Fin 5), Num (Fin 1)]"
  let ?a = "\<lparr>shape = [2, 3], device = 0, elems = ?es\<rparr>"
  let ?out = "\<lparr>shape = [2], device = 0, elems = [9, 9 :: int]\<rparr>"
  have g: "groups [2, 3] [Suc 0] = [[0, 1, 2], [3, 4, 5]]"
    by (simp add: engine_defs)
  have f: "filter (\<lambda>p. fst p \<noteq> NaN) (visit ?es [0, 1, 2]) = [(Num (Fin 2), 0), (Num (Fin 7), 2)]"
    by (simp add: visit_def upt_conv_Cons)
  obtain r where call: "NativeArgMaxOp_Call ?a [1] ?out = Inr r"
    and r: "r = ?out\<lparr>elems := elems r\<rparr>" and l: "length (elems r) = 2"
    by (simp add: NativeArgMaxOp_Call_def CHAINERX_ASSERT_def IsValidReductionShape_def
        drop_shape_def kept_def CheckDevicesCompatible_def Reduce_def g)
  have k0: "0 < length (groups (shape ?a) [1])" and g0: "groups (shape ?a) [1] ! 0 = 0 # [1, 2]"
    and k1: "1 < length (groups (shape ?a) [1])" and g1: "groups (shape ?a) [1] ! 1 = 3 # [4, 5]"
    by (simp_all add: g)
  have "elems r ! 0 =
      ArgMax_MapOut (fold_group ArgMax_Identity ArgMax_MapIn ArgMax_Reduce
        (filter (\<lambda>p. fst p \<noteq> NaN) (visit ?es [0, 1, 2])))"
    using ArgMax_NaN_never_replaces [OF call k0 g0] by (simp add: g)
  then have r0: "elems r ! 0 = 2"
    by (simp add: visit_def upt_conv_Cons fold_group_def ArgMax_Identity_def ArgMax_MapIn_def ArgMax_Reduce_def
        ArgMax_MapOut_def less_fnum_def zero_fnum_def)
  have r1: "elems r ! 1 = 0"
    using ArgMax_NaN_never_replaces [OF call k1 g1] by simp
  from l r0 r1 have "elems r = [2, 0]"
    by (cases "elems r"; cases "tl (elems r)") auto
  with call r g f show ?thesis
    by simp
qed

section \<open>AMax: NaN dominates, otherwise the maximum\<close>

lemma le_trans_val: "le u v \<Longrightarrow> le v w \<Longrightarrow> le u w"
  by (cases u; cases v; cases w) auto

lemma AMax_fold_NaN: "fold AMax_step vs NaN = NaN"
  by (induction vs) (auto simp: AMax_Reduce_def AMax_MapIn_def IsNan_def)

lemma AMax_fold_has_NaN:
  assumes "NaN \<in> fst ` set vs"
  shows "fold AMax_step vs acc = NaN"
  using assms
proof (induction vs arbitrary: acc)
  case Nil
  then show ?case by simp
next
  case (Cons p vs)
  obtain v i where p: "p = (v, i)" by (cases p)
  show ?case
  proof (cases "v = NaN")
    case True
    then have "AMax_step p acc = NaN"
      by (simp add: p AMax_Reduce_def AMax_MapIn_def IsNan_def)
    then show ?thesis
      by (simp add: AMax_fold_NaN)
  next
    case False
    then have "NaN \<in> fst ` set vs"
      using Cons.prems by (auto simp: p)
    then show ?thesis
      using Cons.IH by simp
  qed
qed

lemma AMax_fold_max:
  assumes "\<forall>p\<in>set vs. fst p \<noteq> NaN"
  shows "(fold AMax_step vs (Num x) = Num x \<or> fold AMax_step vs (Num x) \<in> fst ` set vs) \<and>
         le (Num x) (fold AMax_step vs (Num x)) \<and>
         (\<forall>p\<in>set vs. le (fst p) (fold AMax_step vs (Num x)))"
  using assms
proof (induction vs arbitrary: x)
  case Nil
  then show ?case by simp
next
  case (Cons p vs)
  obtain v i where p: "p = (v, i)" by (cases p)
  from Cons.prems obtain y where v: "v = Num y"
    by (cases v) (auto simp: p)
  let ?r = "fold AMax_step vs (Num (max x y))"
  have step: "AMax_Reduce (AMax_MapIn (Num y) i) (Num x) = Num (max x y)"
    by (auto simp: AMax_Reduce_def AMax_MapIn_def IsNan_def max_def)
  have IH: "(?r = Num (max x y) \<or> ?r \<in> fst ` set vs) \<and> le (Num (max x y)) ?r \<and>
      (\<forall>p\<in>set vs. le (fst p) ?r)"
    using Cons.IH [of "max x y"] Cons.prems by simp
  have "le (Num x) (Num (max x y))" and "le (Num y) (Num (max x y))"
    by simp_all
  with IH have "le (Num x) ?r" and "le (Num y) ?r"
    by (blast intro: le_trans_val)+
  moreover have "?r = Num x \<or> ?r \<in> fst ` set (p # vs)"
    using IH by (auto simp: p v max_def split: if_splits)
  ultimately show ?case
    using IH by (simp add: step p v)
qed

text \<open>
  C2. Let a call of the AMax adapter return. If the group of output element \<open>k\<close> holds a
  NaN, the output element is NaN. If it holds no NaN and is not empty, the output element
  is the maximum of the group: a value of the group that every value of the group is
  \<open><=\<close>. (Of an empty group, which the adapter does not exclude, the output element is
  \<open>LowestOrInf()\<close>.)
\<close>

theorem AMax_NaN_or_maximum:
  fixes a :: "('a::{linorder,order_bot}) val Array"
  assumes call: "NativeAMaxOp_Call a axis out = Inr r"
    and k: "k < length (groups (shape a) axis)"
  shows "((\<exists>i\<in>set (groups (shape a) axis ! k). elems a ! i = NaN) \<longrightarrow> elems r ! k = NaN) \<and>
         ((\<forall>i\<in>set (groups (shape a) axis ! k). elems a ! i \<noteq> NaN) \<and>
              groups (shape a) axis ! k \<noteq> [] \<longrightarrow>
            (\<exists>i\<in>set (groups (shape a) axis ! k). elems r ! k = elems a ! i) \<and>
            (\<forall>i\<in>set (groups (shape a) axis ! k). le (elems a ! i) (elems r ! k))) \<and>
         (groups (shape a) axis ! k = [] \<longrightarrow> elems r ! k = LowestOrInf)"
proof -
  let ?g = "groups (shape a) axis ! k"
  let ?es = "elems a"
  let ?res = "fold AMax_step (visit ?es ?g) (Num bot)"
  have res: "elems r ! k = ?res"
    using k by (simp add: AMax_Call_elems [OF call] AMax_MapOut_def fold_group_def
        AMax_Identity_def LowestOrInf_def)
  have nan: "(\<exists>i\<in>set ?g. ?es ! i = NaN) \<longrightarrow> elems r ! k = NaN"
  proof
    assume "\<exists>i\<in>set ?g. ?es ! i = NaN"
    then obtain i where "i \<in> set ?g" and "?es ! i = NaN"
      by blast
    then have "NaN \<in> (!) ?es ` set ?g"
      by (metis imageI)
    then have "NaN \<in> fst ` set (visit ?es ?g)"
      by (simp only: fst_set_visit)
    then show "elems r ! k = NaN"
      by (simp add: res AMax_fold_has_NaN)
  qed
  have maxi: "(\<forall>i\<in>set ?g. ?es ! i \<noteq> NaN) \<and> ?g \<noteq> [] \<longrightarrow>
      (\<exists>i\<in>set ?g. elems r ! k = ?es ! i) \<and> (\<forall>i\<in>set ?g. le (?es ! i) (elems r ! k))"
  proof
    assume asm: "(\<forall>i\<in>set ?g. ?es ! i \<noteq> NaN) \<and> ?g \<noteq> []"
    then have "\<forall>v\<in>fst ` set (visit ?es ?g). v \<noteq> NaN"
      by (auto simp: fst_set_visit)
    then have "\<forall>p\<in>set (visit ?es ?g). fst p \<noteq> NaN"
      by blast
    then have m: "(?res = Num bot \<or> ?res \<in> fst ` set (visit ?es ?g)) \<and> le (Num bot) ?res \<and>
        (\<forall>p\<in>set (visit ?es ?g). le (fst p) ?res)"
      by (rule AMax_fold_max)
    then have "\<forall>v\<in>fst ` set (visit ?es ?g). le v ?res"
      by blast
    then have upper: "\<forall>i\<in>set ?g. le (?es ! i) ?res"
      by (simp add: fst_set_visit)
    have "\<exists>i\<in>set ?g. ?res = ?es ! i"
    proof (cases "?res \<in> fst ` set (visit ?es ?g)")
      case True
      then show ?thesis by (auto simp: fst_set_visit)
    next
      case False
      with m have bot: "?res = Num bot" by blast
      from asm obtain i where i: "i \<in> set ?g"
        by (cases ?g) auto
      with upper bot have "le (?es ! i) (Num bot)" by simp
      then have "?es ! i = Num bot"
        by (cases "?es ! i") (auto simp: bot_unique)
      with bot have "?res = ?es ! i" by simp
      with i show ?thesis by (rule bexI [rotated])
    qed
    with upper show "(\<exists>i\<in>set ?g. elems r ! k = ?es ! i) \<and> (\<forall>i\<in>set ?g. le (?es ! i) (elems r ! k))"
      by (simp add: res)
  qed
  have empty: "?g = [] \<longrightarrow> elems r ! k = LowestOrInf"
    by (simp add: res visit_def LowestOrInf_def)
  from nan maxi empty show ?thesis by (intro conjI)
qed

text \<open>
  AMax of the float array [[1,NaN,2]] along axis 1 is [NaN]; of [[4,0,6]] it is [6].
\<close>

theorem AMax_NaN_or_maximum_witness:
  "NativeAMaxOp_Call
       \<lparr>shape = [1, 3], device = 0, elems = [Num (Fin 1), NaN, Num (Fin 2)]\<rparr> [1]
       \<lparr>shape = [1], device = 0, elems = [Num (Fin 0)]\<rparr> =
     Inr \<lparr>shape = [1], device = 0, elems = [NaN]\<rparr> \<and>
   groups [1, 3] [1] = [[0, 1, 2]] \<and>
   NativeAMaxOp_Call
       \<lparr>shape = [1, 3], device = 0, elems = [Num (Fin 4), Num (Fin 0), Num (Fin 6)]\<rparr> [1]
       \<lparr>shape = [1], device = 0, elems = [Num (Fin 0)]\<rparr> =
     Inr \<lparr>shape = [1], device = 0, elems = [Num (Fin 6)]\<rparr>"
proof -
  let ?a = "\<lparr>shape = [1, 3], device = 0, elems = [Num (Fin 1), NaN, Num (Fin 2)]\<rparr>"
  let ?b = "\<lparr>shape = [1, 3], device = 0, elems = [Num (Fin 4), Num (Fin 0), Num (Fin 6)]\<rparr>"
  let ?out = "\<lparr>shape = [1], device = 0, elems = [Num (Fin 0)]\<rparr>"
  have g: "groups [1, 3] [1] = [[0, 1, 2]]"
    by (simp add: engine_defs)
  have calla: "NativeAMaxOp_Call ?a [1] ?out = Inr (?out\<lparr>elems := [NaN]\<rparr>)"
    by (simp add: AMax_defs engine_defs less_fnum_def bot_fnum_def)
  have callb: "NativeAMaxOp_Call ?b [1] ?out = Inr (?out\<lparr>elems := [Num (Fin 6)]\<rparr>)"
    by (simp add: AMax_defs engine_defs less_fnum_def bot_fnum_def)
  have "elems (?out\<lparr>elems := [NaN]\<rparr>) ! 0 = NaN"
    using AMax_NaN_or_maximum [OF calla, of 0] by (simp add: g)
  moreover have "\<forall>i\<in>set [0, 1, 2]. le (elems ?b ! i) (elems (?out\<lparr>elems := [Num (Fin 6)]\<rparr>) ! 0)"
    using AMax_NaN_or_maximum [OF callb, of 0] by (simp add: g)
  ultimately show ?thesis
    using calla callb g by simp
qed

section \<open>Sum: the fold in the accumulator type\<close>

text \<open>A policy whose \<open>MapIn\<close> does not read the position folds the values of the group.\<close>

lemma fold_group_values:
  assumes "\<forall>v i. MapIn v i = f v"
  shows "fold_group Identity MapIn Combine (visit es g) =
      fold (\<lambda>v accum. Combine (f v) accum) (map ((!) es) g) Identity"
proof -
  have "fold (\<lambda>(v, i) accum. Combine (MapIn v i) accum) vs z =
      fold (\<lambda>v accum. Combine (f v) accum) (map fst vs) z" for vs z
    using assms by (induction vs arbitrary: z) (simp_all add: case_prod_beta)
  then show ?thesis
    by (simp add: fold_group_def map_fst_visit)
qed

lemma fold_add_foldl:
  "fold (\<lambda>v accum. add accum (cast v)) vs z = foldl (\<lambda>accum next. add accum next) z (map cast vs)"
  by (induction vs arbitrary: z) simp_all

lemma Sum_fold_group:
  "fold_group Sum_Identity (Sum_MapIn to_Accum) Sum_Reduce (visit es g) =
     foldl (\<lambda>accum next. accum + next) 0 (map (\<lambda>i. to_Accum (es ! i)) g)"
proof -
  have "\<forall>v i. Sum_MapIn to_Accum v i = to_Accum v"
    by (simp add: Sum_MapIn_def)
  then have "fold_group Sum_Identity (Sum_MapIn to_Accum) Sum_Reduce (visit es g) =
      fold (\<lambda>v accum. Sum_Reduce (to_Accum v) accum) (map ((!) es) g) Sum_Identity"
    by (rule fold_group_values)
  also have "\<dots> = foldl (\<lambda>accum next. accum + next) 0 (map to_Accum (map ((!) es) g))"
    unfolding Sum_Reduce_def Sum_Identity_def
    using fold_add_foldl [of "(+)" to_Accum] by simp
  finally show ?thesis
    by (simp add: comp_def)
qed

text \<open>What a call of Sum with resolved types returns, element by element.\<close>

lemma Sum_Call_fold:
  assumes call: "NativeSumOp_Call to_Accum to_Out a axis out = Inr r"
    and k: "k < length (groups (shape a) axis)"
  shows "elems r ! k =
      to_Out (foldl (\<lambda>accum next. accum + next) 0
        (map (\<lambda>i. to_Accum (elems a ! i)) (groups (shape a) axis ! k)))"
  using k by (simp add: Sum_Call_elems [OF call] Sum_fold_group Sum_MapOut_def)

text \<open>The fold of \<open>do_sum\<close> in the accumulator type it derives from the output type.\<close>

lemma do_sum_fold_group:
  "do_sum_MapOut N Out
     (fold_group (do_sum_Identity N Out) (do_sum_MapIn N In Out) (do_sum_Reduce N Out)
        (visit es g)) =
   cast_of N (Accum Out) Out
     (foldl (\<lambda>accum next. plus_of N (Accum Out) accum next) (zero_of N (Accum Out))
        (map (\<lambda>i. cast_of N In (Accum Out) (es ! i)) g))"
proof -
  have "\<forall>v i. do_sum_MapIn N In Out v i = cast_of N In (Accum Out) v"
    by (simp add: do_sum_MapIn_def)
  then have "fold_group (do_sum_Identity N Out) (do_sum_MapIn N In Out) (do_sum_Reduce N Out)
        (visit es g) =
      fold (\<lambda>v accum. do_sum_Reduce N Out (cast_of N In (Accum Out) v) accum)
        (map ((!) es) g) (do_sum_Identity N Out)"
    by (rule fold_group_values)
  also have "\<dots> = foldl (\<lambda>accum next. plus_of N (Accum Out) accum next) (zero_of N (Accum Out))
      (map (cast_of N In (Accum Out)) (map ((!) es) g))"
    unfolding do_sum_Reduce_def do_sum_Identity_def
    using fold_add_foldl [of "plus_of N (Accum Out)" "cast_of N In (Accum Out)"] by simp
  finally show ?thesis
    by (simp add: do_sum_MapOut_def comp_def)
qed

lemma Sum_Call_dtype_elems:
  assumes call: "NativeSumOp_Call_dtype N In Out a axis out = Inr r"
    and k: "k < length (groups (shape a) axis)"
  shows "elems r ! k =
      cast_of N (Accum Out) Out
        (foldl (\<lambda>accum next. plus_of N (Accum Out) accum next) (zero_of N (Accum Out))
           (map (\<lambda>i. cast_of N In (Accum Out) (elems a ! i)) (groups (shape a) axis ! k)))"
proof -
  have "r = do_sum N In Out a axis out"
    using call by (auto simp: NativeSumOp_Call_dtype_def CHAINERX_ASSERT_def split: if_splits)
  then show ?thesis
    using k by (simp add: do_sum_def elems_Reduce do_sum_fold_group)
qed

text \<open>
  The call with the types resolved is the call at these element types, when \<open>0\<close> and \<open>+\<close>
  of the carrier are those of the accumulator type.
\<close>

lemma Sum_Call_dtype_instance:
  fixes N :: "('t, 'v::{zero,plus}) numerics"
  assumes "zero_of N (Accum Out) = 0" and "plus_of N (Accum Out) = (+)"
  shows "NativeSumOp_Call_dtype N In Out a axis out =
      NativeSumOp_Call (cast_of N In (Accum Out)) (cast_of N (Accum Out) Out) a axis out"
proof -
  have "do_sum_Identity N Out = Sum_Identity"
    by (simp add: do_sum_Identity_def Sum_Identity_def assms)
  moreover have "do_sum_MapIn N In Out = Sum_MapIn (cast_of N In (Accum Out))"
    by (intro ext) (simp add: do_sum_MapIn_def Sum_MapIn_def)
  moreover have "do_sum_Reduce N Out = Sum_Reduce"
    by (intro ext) (simp add: do_sum_Reduce_def Sum_Reduce_def assms)
  moreover have "do_sum_MapOut N Out = Sum_MapOut (cast_of N (Accum Out) Out)"
    by (intro ext) (simp add: do_sum_MapOut_def Sum_MapOut_def)
  ultimately show ?thesis
    by (simp add: NativeSumOp_Call_dtype_def NativeSumOp_Call_def do_sum_def)
qed

text \<open>
  C5, amended. Let a call of Sum on an input of element type \<open>In\<close> and an output of element
  type \<open>Out\<close> return. If \<open>Out\<close> is \<open>Float16\<close>, output element \<open>k\<close> is the cast to \<open>Float16\<close> of
  the \<open>float\<close> obtained from the \<open>float\<close> 0 by adding in \<open>float\<close>, one after the other in the
  order of the visit, the elements of the group cast to \<open>float\<close>. Otherwise it is the cast
  to \<open>Out\<close> of the value obtained in the same way in the type \<open>Out\<close> itself. So the
  accumulator type is \<open>float\<close> exactly when \<open>Out\<close> is \<open>Float16\<close> or \<open>float\<close>, and it is \<open>Out\<close>
  whenever \<open>Out\<close> is not \<open>Float16\<close>; the identity is the 0 of the accumulator type.
\<close>

theorem Sum_accumulates_in_Accum:
  assumes call: "NativeSumOp_Call_dtype N In Out a axis out = Inr r"
    and k: "k < length (groups (shape a) axis)"
  shows "(Out = Float16 \<longrightarrow>
            elems r ! k =
              cast_of N CFloat Float16
                (foldl (\<lambda>accum next. plus_of N CFloat accum next) (zero_of N CFloat)
                   (map (\<lambda>i. cast_of N In CFloat (elems a ! i)) (groups (shape a) axis ! k)))) \<and>
         (Out \<noteq> Float16 \<longrightarrow>
            elems r ! k =
              cast_of N Out Out
                (foldl (\<lambda>accum next. plus_of N Out accum next) (zero_of N Out)
                   (map (\<lambda>i. cast_of N In Out (elems a ! i)) (groups (shape a) axis ! k)))) \<and>
         (Accum Out = CFloat \<longleftrightarrow> Out = Float16 \<or> Out = CFloat) \<and>
         (Out \<noteq> Float16 \<longrightarrow> Accum Out = Out) \<and>
         do_sum_Identity N Out = zero_of N (Accum Out)"
proof -
  note res = Sum_Call_dtype_elems [OF call k]
  have half: "Out = Float16 \<longrightarrow>
      elems r ! k =
        cast_of N CFloat Float16
          (foldl (\<lambda>accum next. plus_of N CFloat accum next) (zero_of N CFloat)
             (map (\<lambda>i. cast_of N In CFloat (elems a ! i)) (groups (shape a) axis ! k)))"
    using res by (simp add: Accum_def)
  have other: "Out \<noteq> Float16 \<longrightarrow>
      elems r ! k =
        cast_of N Out Out
          (foldl (\<lambda>accum next. plus_of N Out accum next) (zero_of N Out)
             (map (\<lambda>i. cast_of N In Out (elems a ! i)) (groups (shape a) axis ! k)))"
    using res by (simp add: Accum_def)
  have types: "Accum Out = CFloat \<longleftrightarrow> Out = Float16 \<or> Out = CFloat"
    "Out \<noteq> Float16 \<longrightarrow> Accum Out = Out"
    by (auto simp: Accum_def)
  have ident: "do_sum_Identity N Out = zero_of N (Accum Out)"
    by (simp add: do_sum_Identity_def)
  from half other types ident show ?thesis by (intro conjI)
qed


text \<open>
  A numerics on the integers in which \<open>Float16\<close> holds every integer up to 2048 and, above
  that, only the even ones (a sum computed in \<open>Float16\<close> and a cast into \<open>Float16\<close> round
  down to such a number), while \<open>float\<close> and the other type hold every integer. Summing
  the \<open>Float16\<close> array [2048, 1, 1] into a \<open>Float16\<close> output accumulates in \<open>float\<close> and
  gives 2050, where adding in \<open>Float16\<close> itself would give 2048; into a \<open>float\<close> output the
  accumulator is \<open>float\<close> as well.
\<close>

theorem Sum_accumulates_in_Accum_witness:
  "(let half = (\<lambda>x :: int. if x \<le> 2048 then x else 2 * (x div 2));
        N = \<lparr>zero_of = (\<lambda>T :: unit ctype. 0),
             plus_of = (\<lambda>T a b. if T = Float16 then half (a + b) else a + b),
             cast_of = (\<lambda>S T x. if T = Float16 then half x else x)\<rparr>;
        a = \<lparr>shape = [3], device = 0, elems = [2048, 1, 1]\<rparr>;
        out = \<lparr>shape = [], device = 0, elems = [0]\<rparr>
    in NativeSumOp_Call_dtype N Float16 Float16 a [0] out =
         Inr \<lparr>shape = [], device = 0, elems = [2050]\<rparr> \<and>
       NativeSumOp_Call_dtype N Float16 CFloat a [0] out =
         Inr \<lparr>shape = [], device = 0, elems = [2050]\<rparr> \<and>
       cast_of N Float16 Float16
         (foldl (\<lambda>accum next. plus_of N Float16 accum next) (zero_of N Float16)
            (map (cast_of N Float16 Float16) [2048, 1, 1])) = 2048 \<and>
       groups [3] [0] = [[0, 1, 2]])"
proof -
  define half where "half = (\<lambda>x :: int. if x \<le> 2048 then x else 2 * (x div 2))"
  define N where "N = \<lparr>zero_of = (\<lambda>T :: unit ctype. 0 :: int),
      plus_of = (\<lambda>T a b. if T = Float16 then half (a + b) else a + b),
      cast_of = (\<lambda>S T x. if T = Float16 then half x else x)\<rparr>"
  let ?a = "\<lparr>shape = [3], device = 0, elems = [2048, 1, 1 :: int]\<rparr>"
  let ?out = "\<lparr>shape = [], device = 0, elems = [0 :: int]\<rparr>"
  have g: "groups [3] [0] = [[0, 1, 2]]"
    by (simp add: engine_defs)
  have k: "0 < length (groups (shape ?a) [0])"
    by (simp add: g)
  obtain r where call: "NativeSumOp_Call_dtype N Float16 Float16 ?a [0] ?out = Inr r"
    and r: "r = ?out\<lparr>elems := elems r\<rparr>" and l: "length (elems r) = 1"
    by (simp add: NativeSumOp_Call_dtype_def CHAINERX_ASSERT_def IsValidReductionShape_def
        drop_shape_def kept_def CheckDevicesCompatible_def do_sum_def Reduce_def g)
  obtain r' where call': "NativeSumOp_Call_dtype N Float16 CFloat ?a [0] ?out = Inr r'"
    and r': "r' = ?out\<lparr>elems := elems r'\<rparr>" and l': "length (elems r') = 1"
    by (simp add: NativeSumOp_Call_dtype_def CHAINERX_ASSERT_def IsValidReductionShape_def
        drop_shape_def kept_def CheckDevicesCompatible_def do_sum_def Reduce_def g)
  have "elems r ! 0 =
      cast_of N CFloat Float16
        (foldl (\<lambda>accum next. plus_of N CFloat accum next) (zero_of N CFloat)
           (map (\<lambda>i. cast_of N Float16 CFloat (elems ?a ! i)) (groups (shape ?a) [0] ! 0)))"
    using Sum_accumulates_in_Accum [OF call k] by simp
  then have "elems r ! 0 = 2050"
    by (simp add: g N_def half_def)
  with l have e: "elems r = [2050]"
    by (cases "elems r") simp_all
  have "elems r' ! 0 =
      cast_of N CFloat CFloat
        (foldl (\<lambda>accum next. plus_of N CFloat accum next) (zero_of N CFloat)
           (map (\<lambda>i. cast_of N Float16 CFloat (elems ?a ! i)) (groups (shape ?a) [0] ! 0)))"
    using Sum_accumulates_in_Accum [OF call' k] by simp
  then have "elems r' ! 0 = 2050"
    by (simp add: g N_def half_def)
  with l' have e': "elems r' = [2050]"
    by (cases "elems r'") simp_all
  have in_half: "cast_of N Float16 Float16
      (foldl (\<lambda>accum next. plus_of N Float16 accum next) (zero_of N Float16)
         (map (cast_of N Float16 Float16) [2048, 1, 1])) = 2048"
    by (simp add: N_def half_def)
  from call call' r r' e e' in_half g show ?thesis
    unfolding Let_def N_def [symmetric] half_def [symmetric] by simp
qed

text \<open>
  C5 as stated fails at the output type \<open>float\<close>: the accumulator type is \<open>float\<close> there,
  and \<open>float\<close> is not \<open>Float16\<close>.
\<close>

theorem Sum_accumulator_float_counterexample:
  "Accum (CFloat :: unit ctype) = CFloat \<and> (CFloat :: unit ctype) \<noteq> Float16 \<and>
   \<not> (\<forall>Out :: unit ctype. Accum Out = CFloat \<longleftrightarrow> Out = Float16)"
proof -
  have "Accum (CFloat :: unit ctype) = CFloat" and "(CFloat :: unit ctype) \<noteq> Float16"
    by (simp_all add: Accum_def)
  then show ?thesis
    by blast
qed

section \<open>Sum and AMax do not read the flat indices\<close>

lemma Reduce_group_values:
  assumes "\<forall>v i. MapIn v i = f v"
  shows "elems (Reduce Identity MapIn Combine MapOut a axis out) =
      map (\<lambda>vs. MapOut (fold (\<lambda>v accum. Combine (f v) accum) vs Identity)) (group_values a axis)"
  by (simp add: elems_Reduce group_values_def fold_group_values [OF assms] comp_def)

lemma Sum_Call_values:
  assumes "NativeSumOp_Call to_Accum to_Out a axis out = Inr r"
  shows "elems r =
      map (\<lambda>vs. Sum_MapOut to_Out (fold (\<lambda>v accum. Sum_Reduce (to_Accum v) accum) vs Sum_Identity))
        (group_values a axis)"
proof -
  have r: "r = Reduce Sum_Identity (Sum_MapIn to_Accum) Sum_Reduce (Sum_MapOut to_Out) a axis out"
    using assms by (auto simp: NativeSumOp_Call_def CHAINERX_ASSERT_def split: if_splits)
  have "\<forall>v i. Sum_MapIn to_Accum v i = to_Accum v"
    by (simp add: Sum_MapIn_def)
  then show ?thesis
    unfolding r by (rule Reduce_group_values)
qed

lemma AMax_Call_values:
  fixes a :: "('a::{linorder,order_bot}) val Array"
  assumes "NativeAMaxOp_Call a axis out = Inr r"
  shows "elems r =
      map (\<lambda>vs. AMax_MapOut (fold (\<lambda>v accum. AMax_Reduce v accum) vs AMax_Identity))
        (group_values a axis)"
proof -
  have r: "r = Reduce AMax_Identity AMax_MapIn AMax_Reduce AMax_MapOut a axis out"
    using assms by (auto simp: NativeAMaxOp_Call_def CHAINERX_ASSERT_def split: if_splits)
  have "\<forall>(v :: 'a val) i. AMax_MapIn v i = (\<lambda>v. v) v"
    by (simp add: AMax_MapIn_def)
  then show ?thesis
    unfolding r by (rule Reduce_group_values)
qed

text \<open>
  C10. The \<open>MapIn\<close> of Sum and the \<open>MapIn\<close> of AMax give the same accumulator whatever the
  index argument is. Hence two calls of Sum (with the same casts), or two calls of AMax,
  that return and whose groups hold the same values in the same order of visit (on
  whatever arrays, shapes, axes and flat indices) give the same output elements.
\<close>

theorem Sum_AMax_ignore_flat_indices:
  fixes to_Accum :: "'i \<Rightarrow> 'acc::{zero,plus}" and to_Out :: "'acc \<Rightarrow> 'o"
    and a a' :: "('a::{linorder,order_bot}) val Array"
  shows "(\<forall>v i i'. Sum_MapIn to_Accum v i = Sum_MapIn to_Accum v i') \<and>
         (\<forall>(v :: 'a val) i i'. AMax_MapIn v i = AMax_MapIn v i') \<and>
         (NativeSumOp_Call to_Accum to_Out s axis out = Inr r \<and>
          NativeSumOp_Call to_Accum to_Out s' axis' out' = Inr r' \<and>
          group_values s axis = group_values s' axis' \<longrightarrow> elems r = elems r') \<and>
         (NativeAMaxOp_Call a axis_a out_a = Inr r_a \<and>
          NativeAMaxOp_Call a' axis_a' out_a' = Inr r_a' \<and>
          group_values a axis_a = group_values a' axis_a' \<longrightarrow> elems r_a = elems r_a')"
proof -
  have mapin: "\<forall>v i i'. Sum_MapIn to_Accum v i = Sum_MapIn to_Accum v i'"
    "\<forall>(v :: 'a val) i i'. AMax_MapIn v i = AMax_MapIn v i'"
    by (simp_all add: Sum_MapIn_def AMax_MapIn_def)
  have sum: "NativeSumOp_Call to_Accum to_Out s axis out = Inr r \<and>
      NativeSumOp_Call to_Accum to_Out s' axis' out' = Inr r' \<and>
      group_values s axis = group_values s' axis' \<longrightarrow> elems r = elems r'"
    by (auto dest!: Sum_Call_values)
  have amax: "NativeAMaxOp_Call a axis_a out_a = Inr r_a \<and>
      NativeAMaxOp_Call a' axis_a' out_a' = Inr r_a' \<and>
      group_values a axis_a = group_values a' axis_a' \<longrightarrow> elems r_a = elems r_a'"
    by (auto dest!: AMax_Call_values)
  from mapin sum amax show ?thesis by (intro conjI)
qed

text \<open>
  [[1,2],[3,4]] reduced over axis 0 and its transpose [[1,3],[2,4]] reduced over axis 1:
  the groups are {0,2},{1,3} and {0,1},{2,3}, the values [1,3],[2,4] in both runs, and
  the outputs are equal: [4,6] for Sum and [3,4] for AMax.
\<close>

theorem Sum_AMax_ignore_flat_indices_witness:
  "groups [2, 2] [0] = [[0, 2], [1, 3]] \<and> groups [2, 2] [1] = [[0, 1], [2, 3]] \<and>
   NativeSumOp_Call id id \<lparr>shape = [2, 2], device = 0, elems = [1, 2, 3, 4 :: 8 word]\<rparr> [0]
       \<lparr>shape = [2], device = 0, elems = [0, 0 :: 8 word]\<rparr> =
     Inr \<lparr>shape = [2], device = 0, elems = [4, 6]\<rparr> \<and>
   NativeSumOp_Call id id \<lparr>shape = [2, 2], device = 0, elems = [1, 3, 2, 4 :: 8 word]\<rparr> [1]
       \<lparr>shape = [2], device = 0, elems = [0, 0 :: 8 word]\<rparr> =
     Inr \<lparr>shape = [2], device = 0, elems = [4, 6]\<rparr> \<and>
   NativeAMaxOp_Call \<lparr>shape = [2, 2], device = 0, elems = [Num 1, Num 2, Num 3, Num (4 :: 8 word)]\<rparr> [0]
       \<lparr>shape = [2], device = 0, elems = [NaN, NaN]\<rparr> =
     Inr \<lparr>shape = [2], device = 0, elems = [Num 3, Num 4]\<rparr> \<and>
   NativeAMaxOp_Call \<lparr>shape = [2, 2], device = 0, elems = [Num 1, Num 3, Num 2, Num (4 :: 8 word)]\<rparr> [1]
       \<lparr>shape = [2], device = 0, elems = [NaN, NaN]\<rparr> =
     Inr \<lparr>shape = [2], device = 0, elems = [Num 3, Num 4]\<rparr>"
proof -
  let ?s = "\<lparr>shape = [2, 2], device = 0, elems = [1, 2, 3, 4 :: 8 word]\<rparr>"
  let ?s' = "\<lparr>shape = [2, 2], device = 0, elems = [1, 3, 2, 4 :: 8 word]\<rparr>"
  let ?a = "\<lparr>shape = [2, 2], device = 0, elems = [Num 1, Num 2, Num 3, Num (4 :: 8 word)]\<rparr>"
  let ?a' = "\<lparr>shape = [2, 2], device = 0, elems = [Num 1, Num 3, Num 2, Num (4 :: 8 word)]\<rparr>"
  let ?o = "\<lparr>shape = [2], device = 0, elems = [0, 0 :: 8 word]\<rparr>"
  let ?oa = "\<lparr>shape = [2], device = 0, elems = [NaN, NaN :: 8 word val]\<rparr>"
  have g: "groups [2, 2] [0] = [[0, 2], [1, 3]]" "groups [2, 2] [1] = [[0, 1], [2, 3]]"
    "groups [2, 2] [Suc 0] = [[0, 1], [2, 3]]"
    by (simp_all add: engine_defs)
  have vs: "group_values ?s [0] = group_values ?s' [1]"
    and va: "group_values ?a [0] = group_values ?a' [1]"
    by (simp_all add: group_values_def g)
  have s: "NativeSumOp_Call id id ?s [0] ?o = Inr (?o\<lparr>elems := [4, 6]\<rparr>)"
    by (simp add: Sum_defs engine_defs)
  obtain r' where s': "NativeSumOp_Call id id ?s' [1] ?o = Inr r'" and r': "r' = ?o\<lparr>elems := elems r'\<rparr>"
    by (simp add: Sum_defs engine_defs)
  have a: "NativeAMaxOp_Call ?a [0] ?oa = Inr (?oa\<lparr>elems := [Num 3, Num 4]\<rparr>)"
    by (simp add: AMax_defs engine_defs bot_word_eq)
  obtain q' where a': "NativeAMaxOp_Call ?a' [1] ?oa = Inr q'" and q': "q' = ?oa\<lparr>elems := elems q'\<rparr>"
    by (simp add: AMax_defs engine_defs bot_word_eq)
  have "elems (?o\<lparr>elems := [4, 6]\<rparr>) = elems r'"
    "elems (?oa\<lparr>elems := [Num 3, Num 4]\<rparr>) = elems q'"
    using Sum_AMax_ignore_flat_indices
      [where to_Accum = id and to_Out = id and s = ?s and axis = "[0]" and out = ?o
          and r = "?o\<lparr>elems := [4, 6]\<rparr>" and s' = ?s' and axis' = "[1]" and out' = ?o
          and r' = r' and a = ?a and axis_a = "[0]" and out_a = ?oa
          and r_a = "?oa\<lparr>elems := [Num 3, Num 4]\<rparr>" and a' = ?a' and axis_a' = "[1]"
          and out_a' = ?oa and r_a' = q']
      s s' a a' vs va by blast+
  then have "r' = ?o\<lparr>elems := [4, 6]\<rparr>" "q' = ?oa\<lparr>elems := [Num 3, Num 4]\<rparr>"
    using r' q' by simp_all
  then show ?thesis
    using s s' a a' g by simp
qed

section \<open>The shape assertion of the adapters\<close>

lemma drop_shape_nths: "drop_shape sh axes = nths sh {k. k \<notin> set axes}"
  by (simp add: drop_shape_def kept_def nths_def)

lemma length_keepdims_shape: "length (keepdims_shape sh axes) = length sh"
  by (simp add: keepdims_shape_def)

lemma nth_keepdims_shape:
  "k < length sh \<Longrightarrow> keepdims_shape sh axes ! k = (if k \<in> set axes then 1 else sh ! k)"
  by (simp add: keepdims_shape_def)

lemma keepdims_shape_iff:
  "out_shape = keepdims_shape sh axes \<longleftrightarrow>
     length out_shape = length sh \<and>
     (\<forall>k<length sh. out_shape ! k = (if k \<in> set axes then 1 else sh ! k))"
proof
  assume "out_shape = keepdims_shape sh axes"
  then show "length out_shape = length sh \<and>
      (\<forall>k<length sh. out_shape ! k = (if k \<in> set axes then 1 else sh ! k))"
    by (simp add: length_keepdims_shape nth_keepdims_shape)
next
  assume "length out_shape = length sh \<and>
      (\<forall>k<length sh. out_shape ! k = (if k \<in> set axes then 1 else sh ! k))"
  then show "out_shape = keepdims_shape sh axes"
    by (intro nth_equalityI) (simp_all add: length_keepdims_shape nth_keepdims_shape)
qed

text \<open>
  C6. Each adapter checks the shapes before the engine runs: a call whose output shape
  is not accepted ends in the shape assertion and returns nothing. Sum and AMax accept
  exactly the input shape with the reduced axes removed and the input shape with every
  reduced axis set to 1; ArgMax and ArgMin (once their axis-size assertion has passed)
  accept exactly the input shape with the reduced axes removed. The axes that remain keep
  their order: the shape with the axes removed is the sublist \<open>nths\<close> of the input shape
  at the positions outside the axes, the keep-dims shape has every axis at its position.
\<close>

theorem adapters_assert_shape_validity:
  fixes s :: "'i Array" and to_Accum :: "'i \<Rightarrow> 'acc::{zero,plus}" and to_Out :: "'acc \<Rightarrow> 'o"
    and m :: "('a::{linorder,order_bot}) val Array" and a :: "('b::{linorder,zero}) val Array"
  shows
    "(NativeSumOp_Call to_Accum to_Out s axis out_s = Inl ReductionShapeAssertion \<longleftrightarrow>
        \<not> (shape out_s = nths (shape s) {k. k \<notin> set axis} \<or>
           length (shape out_s) = length (shape s) \<and>
           (\<forall>k<length (shape s). shape out_s ! k = (if k \<in> set axis then 1 else shape s ! k)))) \<and>
     (NativeAMaxOp_Call m axis out_m = Inl ReductionShapeAssertion \<longleftrightarrow>
        \<not> (shape out_m = nths (shape m) {k. k \<notin> set axis} \<or>
           length (shape out_m) = length (shape m) \<and>
           (\<forall>k<length (shape m). shape out_m ! k = (if k \<in> set axis then 1 else shape m ! k)))) \<and>
     (list_all (\<lambda>i. 0 < shape a ! i) axis \<longrightarrow>
        (NativeArgMaxOp_Call a axis out_a = Inl ReductionShapeAssertion \<longleftrightarrow>
           shape out_a \<noteq> nths (shape a) {k. k \<notin> set axis}) \<and>
        (NativeArgMinOp_Impl a axis out_a = Inl ReductionShapeAssertion \<longleftrightarrow>
           shape out_a \<noteq> nths (shape a) {k. k \<notin> set axis})) \<and>
     (\<forall>r. NativeArgMaxOp_Call a axis out_a = Inr r \<or> NativeArgMinOp_Impl a axis out_a = Inr r \<longrightarrow>
        shape out_a = nths (shape a) {k. k \<notin> set axis})"
proof -
  have sum: "NativeSumOp_Call to_Accum to_Out s axis out_s = Inl ReductionShapeAssertion \<longleftrightarrow>
        \<not> (shape out_s = nths (shape s) {k. k \<notin> set axis} \<or>
           length (shape out_s) = length (shape s) \<and>
           (\<forall>k<length (shape s). shape out_s ! k = (if k \<in> set axis then 1 else shape s ! k)))"
    unfolding NativeSumOp_Call_def CHAINERX_ASSERT_def IsValidReductionShape_def
      drop_shape_nths keepdims_shape_iff
    by simp
  have amax: "NativeAMaxOp_Call m axis out_m = Inl ReductionShapeAssertion \<longleftrightarrow>
        \<not> (shape out_m = nths (shape m) {k. k \<notin> set axis} \<or>
           length (shape out_m) = length (shape m) \<and>
           (\<forall>k<length (shape m). shape out_m ! k = (if k \<in> set axis then 1 else shape m ! k)))"
    unfolding NativeAMaxOp_Call_def CHAINERX_ASSERT_def IsValidReductionShape_def
      drop_shape_nths keepdims_shape_iff
    by simp
  have arg: "list_all (\<lambda>i. 0 < shape a ! i) axis \<longrightarrow>
        (NativeArgMaxOp_Call a axis out_a = Inl ReductionShapeAssertion \<longleftrightarrow>
           shape out_a \<noteq> nths (shape a) {k. k \<notin> set axis}) \<and>
        (NativeArgMinOp_Impl a axis out_a = Inl ReductionShapeAssertion \<longleftrightarrow>
           shape out_a \<noteq> nths (shape a) {k. k \<notin> set axis})"
    unfolding NativeArgMaxOp_Call_def NativeArgMinOp_Impl_def CHAINERX_ASSERT_def
      IsValidReductionShape_def
      drop_shape_nths
    by simp
  have ret: "\<forall>r. NativeArgMaxOp_Call a axis out_a = Inr r \<or> NativeArgMinOp_Impl a axis out_a = Inr r \<longrightarrow>
        shape out_a = nths (shape a) {k. k \<notin> set axis}"
    unfolding NativeArgMaxOp_Call_def NativeArgMinOp_Impl_def CHAINERX_ASSERT_def
      IsValidReductionShape_def
      drop_shape_nths
    by (auto split: if_splits)
  from sum amax arg ret show ?thesis by (intro conjI)
qed

text \<open>
  A 2x3 input reduced over axis 1: Sum and AMax take the output shapes (2) and (2,1) and
  refuse (3); ArgMax and ArgMin take (2) and refuse (2,1).
\<close>

theorem adapters_assert_shape_validity_witness:
  "NativeSumOp_Call id id \<lparr>shape = [2, 3], device = 0, elems = [1, 3, 2, 4, 0, 6 :: 8 word]\<rparr> [1]
       \<lparr>shape = [3], device = 0, elems = [0, 0, 0 :: 8 word]\<rparr> = Inl ReductionShapeAssertion \<and>
   NativeSumOp_Call id id \<lparr>shape = [2, 3], device = 0, elems = [1, 3, 2, 4, 0, 6 :: 8 word]\<rparr> [1]
       \<lparr>shape = [2, 1], device = 0, elems = [0, 0 :: 8 word]\<rparr> \<noteq> Inl ReductionShapeAssertion \<and>
   NativeSumOp_Call id id \<lparr>shape = [2, 3], device = 0, elems = [1, 3, 2, 4, 0, 6 :: 8 word]\<rparr> [1]
       \<lparr>shape = [2], device = 0, elems = [0, 0 :: 8 word]\<rparr> \<noteq> Inl ReductionShapeAssertion \<and>
   NativeArgMaxOp_Call
       \<lparr>shape = [2, 3], device = 0, elems = map Num [1, 3, 2, 4, 0, 6 :: 8 word]\<rparr> [1]
       \<lparr>shape = [2, 1], device = 0, elems = [0, 0]\<rparr> = Inl ReductionShapeAssertion \<and>
   NativeArgMaxOp_Call
       \<lparr>shape = [2, 3], device = 0, elems = map Num [1, 3, 2, 4, 0, 6 :: 8 word]\<rparr> [1]
       \<lparr>shape = [2], device = 0, elems = [0, 0]\<rparr> \<noteq> Inl ReductionShapeAssertion \<and>
   list_all (\<lambda>i. 0 < [2, 3 :: nat] ! i) [1] \<and>
   nths [2, 3 :: nat] {k. k \<notin> set [1]} = [2]"
proof -
  let ?s = "\<lparr>shape = [2, 3], device = 0, elems = [1, 3, 2, 4, 0, 6 :: 8 word]\<rparr>"
  let ?a = "\<lparr>shape = [2, 3], device = 0, elems = map Num [1, 3, 2, 4, 0, 6 :: 8 word]\<rparr>"
  have n: "nths [2, 3 :: nat] {k. k \<notin> set [1]} = [2]"
    by (simp add: nths_Cons)
  have p: "list_all (\<lambda>i. 0 < shape ?a ! i) [1]"
    by simp
  note sum = adapters_assert_shape_validity
    [where s = ?s and to_Accum = id and to_Out = id and axis = "[1]" and a = ?a,
     THEN conjunct1]
  note arg = adapters_assert_shape_validity
    [where s = ?s and to_Accum = id and to_Out = id and axis = "[1]" and a = ?a,
     THEN conjunct2, THEN conjunct2, THEN conjunct1, rule_format, OF p, THEN conjunct1]
  have "NativeSumOp_Call id id ?s [1] \<lparr>shape = [3], device = 0, elems = [0, 0, 0 :: 8 word]\<rparr> =
      Inl ReductionShapeAssertion"
    using n by (subst sum) (simp add: less_Suc_eq)
  moreover have "NativeSumOp_Call id id ?s [1] \<lparr>shape = [2, 1], device = 0, elems = [0, 0 :: 8 word]\<rparr> \<noteq>
      Inl ReductionShapeAssertion"
    using n by (subst sum) (simp add: less_Suc_eq)
  moreover have "NativeSumOp_Call id id ?s [1] \<lparr>shape = [2], device = 0, elems = [0, 0 :: 8 word]\<rparr> \<noteq>
      Inl ReductionShapeAssertion"
    using n by (subst sum) (simp add: less_Suc_eq)
  moreover have "NativeArgMaxOp_Call ?a [1] \<lparr>shape = [2, 1], device = 0, elems = [0, 0]\<rparr> =
      Inl ReductionShapeAssertion"
    using n by (subst arg) simp
  moreover have "NativeArgMaxOp_Call ?a [1] \<lparr>shape = [2], device = 0, elems = [0, 0]\<rparr> \<noteq>
      Inl ReductionShapeAssertion"
    using n by (subst arg) simp
  ultimately show ?thesis
    using n by simp
qed

section \<open>The groups of a reduction over one axis of size 1\<close>















section \<open>Reducing over one axis of size 1\<close>









section \<open>The 2x3 scenario\<close>

text \<open>
  C7. For the input [[1,3,2],[4,0,6]] of shape 2x3 reduced over axis 1, the groups are
  the rows (the flat indices 0,1,2 and 3,4,5); ArgMax yields [1, 2], the positions of the
  row maxima 3 and 6 in their rows (for \<open>uint8\<close> and for floating-point elements); Sum
  yields [6, 10] and AMax yields [3, 6].
\<close>

theorem scenario_2x3:
  "groups [2, 3] [1] = [[0, 1, 2], [3, 4, 5]] \<and>
   NativeArgMaxOp_Call
       \<lparr>shape = [2, 3], device = 0, elems = [Num 1, Num 3, Num 2, Num 4, Num 0, Num (6 :: 8 word)]\<rparr> [1]
       \<lparr>shape = [2], device = 0, elems = [0, 0]\<rparr> =
     Inr \<lparr>shape = [2], device = 0, elems = [1, 2]\<rparr> \<and>
   NativeArgMaxOp_Call
       \<lparr>shape = [2, 3], device = 0,
          elems = [Num (Fin 1), Num (Fin 3), Num (Fin 2), Num (Fin 4), Num (Fin 0), Num (Fin 6)]\<rparr> [1]
       \<lparr>shape = [2], device = 0, elems = [0, 0]\<rparr> =
     Inr \<lparr>shape = [2], device = 0, elems = [1, 2]\<rparr> \<and>
   NativeSumOp_Call id id
       \<lparr>shape = [2, 3], device = 0, elems = [1, 3, 2, 4, 0, 6 :: 8 word]\<rparr> [1]
       \<lparr>shape = [2], device = 0, elems = [0, 0 :: 8 word]\<rparr> =
     Inr \<lparr>shape = [2], device = 0, elems = [6, 10]\<rparr> \<and>
   NativeAMaxOp_Call
       \<lparr>shape = [2, 3], device = 0, elems = [Num 1, Num 3, Num 2, Num 4, Num 0, Num (6 :: 8 word)]\<rparr> [1]
       \<lparr>shape = [2], device = 0, elems = [NaN, NaN]\<rparr> =
     Inr \<lparr>shape = [2], device = 0, elems = [Num 3, Num 6]\<rparr> \<and>
   NativeAMaxOp_Call
       \<lparr>shape = [2, 3], device = 0,
          elems = [Num (Fin 1), Num (Fin 3), Num (Fin 2), Num (Fin 4), Num (Fin 0), Num (Fin 6)]\<rparr> [1]
       \<lparr>shape = [2], device = 0, elems = [NaN, NaN]\<rparr> =
     Inr \<lparr>shape = [2], device = 0, elems = [Num (Fin 3), Num (Fin 6)]\<rparr>"
proof -
  have "groups [2, 3] [1] = [[0, 1, 2], [3, 4, 5]]"
    by (simp add: engine_defs)
  moreover have "NativeArgMaxOp_Call
       \<lparr>shape = [2, 3], device = 0, elems = [Num 1, Num 3, Num 2, Num 4, Num 0, Num (6 :: 8 word)]\<rparr> [1]
       \<lparr>shape = [2], device = 0, elems = [0, 0]\<rparr> =
     Inr \<lparr>shape = [2], device = 0, elems = [1, 2]\<rparr>"
    by (simp add: ArgMax_defs engine_defs)
  moreover have "NativeArgMaxOp_Call
       \<lparr>shape = [2, 3], device = 0,
          elems = [Num (Fin 1), Num (Fin 3), Num (Fin 2), Num (Fin 4), Num (Fin 0), Num (Fin 6)]\<rparr> [1]
       \<lparr>shape = [2], device = 0, elems = [0, 0]\<rparr> =
     Inr \<lparr>shape = [2], device = 0, elems = [1, 2]\<rparr>"
    by (simp add: ArgMax_defs engine_defs less_fnum_def zero_fnum_def)
  moreover have "NativeSumOp_Call id id
       \<lparr>shape = [2, 3], device = 0, elems = [1, 3, 2, 4, 0, 6 :: 8 word]\<rparr> [1]
       \<lparr>shape = [2], device = 0, elems = [0, 0 :: 8 word]\<rparr> =
     Inr \<lparr>shape = [2], device = 0, elems = [6, 10]\<rparr>"
    by (simp add: Sum_defs engine_defs)
  moreover have "NativeAMaxOp_Call
       \<lparr>shape = [2, 3], device = 0, elems = [Num 1, Num 3, Num 2, Num 4, Num 0, Num (6 :: 8 word)]\<rparr> [1]
       \<lparr>shape = [2], device = 0, elems = [NaN, NaN]\<rparr> =
     Inr \<lparr>shape = [2], device = 0, elems = [Num 3, Num 6]\<rparr>"
    by (simp add: AMax_defs engine_defs bot_word_eq)
  moreover have "NativeAMaxOp_Call
       \<lparr>shape = [2, 3], device = 0,
          elems = [Num (Fin 1), Num (Fin 3), Num (Fin 2), Num (Fin 4), Num (Fin 0), Num (Fin 6)]\<rparr> [1]
       \<lparr>shape = [2], device = 0, elems = [NaN, NaN]\<rparr> =
     Inr \<lparr>shape = [2], device = 0, elems = [Num (Fin 3), Num (Fin 6)]\<rparr>"
    by (simp add: AMax_defs engine_defs less_fnum_def bot_fnum_def)
  ultimately show ?thesis
    by (intro conjI)
qed

end
